theory Spec2Isabelle
  imports Main "HOL-Library.Word" "HOL-Library.Monad_Syntax" "HOL-Library.Signed_Division"
begin

unbundle bit_operations_syntax

section \<open>Machine integers and the kernel heap\<close>

text \<open>
  The C types of \<^verbatim>\<open>bn.c\<close> on an LP64 kernel: \<^verbatim>\<open>unsigned int\<close> and \<^verbatim>\<open>int\<close> are 32 bits,
  \<^verbatim>\<open>size_t\<close>, \<^verbatim>\<open>unsigned long long\<close> and \<^verbatim>\<open>long long\<close> are 64 bits. A signed value is the
  same bit pattern as the unsigned one and is read with \<open>sint\<close>; signed arithmetic wraps
  (the kernel is built with \<^verbatim>\<open>-fno-strict-overflow\<close>). A pointer is an address or NULL.
\<close>

type_synonym u32 = "32 word"
type_synonym i32 = "32 word"
type_synonym u64 = "64 word"
type_synonym i64 = "64 word"
type_synonym ptr = "nat option"

abbreviation NULL :: ptr where
  "NULL \<equiv> None"

text \<open>The struct \<^verbatim>\<open>bn\<close> of \<^verbatim>\<open>bn.h\<close>; the field \<^verbatim>\<open>size\<close> is \<open>size'\<close> here.\<close>

record bn =
  number :: ptr
  size' :: u32
  sign :: u32

text \<open>
  One address space holds the \<^verbatim>\<open>bn\<close> structs and the limb blocks. An access through a
  pointer that is NULL, dangling, of the wrong kind or out of the block's range is
  undefined behaviour in C; every operation below returns \<open>None\<close> there.
\<close>

datatype cell = Struct bn | Limbs "u32 list"

text \<open>
  The host allocator is outside the repository. Its answers to \<^verbatim>\<open>krealloc\<close> are read from
  a script: \<open>ENOMEM\<close> is a failed call, \<open>Granted junk\<close> a successful one whose fresh limbs hold
  \<open>junk i\<close> at index \<open>i\<close> (\<^verbatim>\<open>krealloc\<close> does not clear memory). An exhausted script fails.
  A granted block is placed at the fresh address \<open>brk\<close>, and the old block is released.
  \<open>released\<close> logs the addresses passed to \<^verbatim>\<open>kfree\<close>, oldest first.
\<close>

datatype kresp = ENOMEM | Granted "nat \<Rightarrow> u32"

record kernel =
  heap :: "nat \<rightharpoonup> cell"
  brk :: nat
  host :: "kresp list"
  released :: "nat list"

definition get_bn :: "ptr \<Rightarrow> kernel \<Rightarrow> bn option" where
  "get_bn p s =
     (case p of None \<Rightarrow> None
      | Some q \<Rightarrow> (case heap s q of Some (Struct B) \<Rightarrow> Some B | _ \<Rightarrow> None))"

definition put_bn :: "ptr \<Rightarrow> bn \<Rightarrow> kernel \<Rightarrow> kernel option" where
  "put_bn p B s =
     (case p of None \<Rightarrow> None
      | Some q \<Rightarrow> (case heap s q of
           Some (Struct _) \<Rightarrow> Some (s\<lparr>heap := (heap s)(q \<mapsto> Struct B)\<rparr>)
         | _ \<Rightarrow> None))"

definition get_limbs :: "ptr \<Rightarrow> kernel \<Rightarrow> u32 list option" where
  "get_limbs p s =
     (case p of None \<Rightarrow> None
      | Some q \<Rightarrow> (case heap s q of Some (Limbs xs) \<Rightarrow> Some xs | _ \<Rightarrow> None))"

definition load :: "ptr \<Rightarrow> nat \<Rightarrow> kernel \<Rightarrow> u32 option" where
  "load p i s =
     (case get_limbs p s of None \<Rightarrow> None
      | Some xs \<Rightarrow> if i < length xs then Some (xs ! i) else None)"

definition store :: "ptr \<Rightarrow> nat \<Rightarrow> u32 \<Rightarrow> kernel \<Rightarrow> kernel option" where
  "store p i v s =
     (case get_limbs p s of None \<Rightarrow> None
      | Some xs \<Rightarrow>
          if i < length xs then Some (s\<lparr>heap := (heap s)(the p \<mapsto> Limbs (xs[i := v]))\<rparr>)
          else None)"

text \<open>\<^verbatim>\<open>kfree\<close>: NULL is accepted and ignored; a pointer that is not live is a double free.\<close>

definition kfree :: "ptr \<Rightarrow> kernel \<Rightarrow> kernel option" where
  "kfree p s =
     (case p of None \<Rightarrow> Some s
      | Some q \<Rightarrow> (case heap s q of None \<Rightarrow> None
           | Some _ \<Rightarrow> Some (s\<lparr>heap := (heap s)(q := None), released := released s @ [q]\<rparr>)))"

text \<open>
  \<^verbatim>\<open>krealloc(p, bytes, GFP_KERNEL)\<close>: with \<open>p = NULL\<close> it allocates; the contents are kept
  up to the lesser of the old and the new length. On failure it returns NULL and leaves the
  old block as it is.
\<close>

definition krealloc :: "ptr \<Rightarrow> u64 \<Rightarrow> kernel \<Rightarrow> (ptr \<times> kernel) option" where
  "krealloc p bytes s =
     (case (case p of None \<Rightarrow> Some [] | Some _ \<Rightarrow> get_limbs p s) of
        None \<Rightarrow> None
      | Some xs \<Rightarrow>
         (case host s of
            [] \<Rightarrow> Some (NULL, s)
          | ENOMEM # rest \<Rightarrow> Some (NULL, s\<lparr>host := rest\<rparr>)
          | Granted junk # rest \<Rightarrow>
              Some (Some (brk s),
                s\<lparr>heap := (case p of None \<Rightarrow> heap s | Some q \<Rightarrow> (heap s)(q := None))
                            (brk s \<mapsto> Limbs (map (\<lambda>i. if i < length xs then xs ! i else junk i)
                                                  [0..<unat bytes div 4])),
                  brk := Suc (brk s), host := rest\<rparr>)))"

text \<open>\<^verbatim>\<open>memset(p + off, 0, bytes)\<close> on a limb block, \<open>off\<close> counted in limbs.\<close>

definition memset0 :: "ptr \<Rightarrow> nat \<Rightarrow> u64 \<Rightarrow> kernel \<Rightarrow> kernel option" where
  "memset0 p off bytes s =
     (case get_limbs p s of None \<Rightarrow> None
      | Some xs \<Rightarrow>
          if off + unat bytes div 4 \<le> length xs
          then Some (s\<lparr>heap := (heap s)(the p \<mapsto>
                 Limbs (take off xs @ replicate (unat bytes div 4) 0 @ drop (off + unat bytes div 4) xs))\<rparr>)
          else None)"

section \<open>The functions of bn.c\<close>

definition bn_swap :: "ptr \<Rightarrow> ptr \<Rightarrow> kernel \<Rightarrow> kernel option" where
  "bn_swap a b s = do {
     tmp \<leftarrow> get_bn a s;
     B \<leftarrow> get_bn b s;
     s1 \<leftarrow> put_bn a B s;
     put_bn b tmp s1 }"

definition bn_free :: "ptr \<Rightarrow> kernel \<Rightarrow> (i32 \<times> kernel) option" where
  "bn_free src s =
     (if src = NULL then Some (- 1, s)
      else do {
        B \<leftarrow> get_bn src s;
        s1 \<leftarrow> kfree (number B) s;
        s2 \<leftarrow> kfree src s1;
        Some (0, s2) })"

text \<open>The macro of \<^verbatim>\<open>bn.h\<close>, on the struct read through the pointer.\<close>

definition bn_is_zero :: "ptr \<Rightarrow> kernel \<Rightarrow> bool option" where
  "bn_is_zero n s = do { B \<leftarrow> get_bn n s; Some (size' B = 0) }"

text \<open>\<^verbatim>\<open>__builtin_clz\<close>: the number of leading zero bits; undefined at 0.\<close>

fun nlz :: "nat \<Rightarrow> u32 \<Rightarrow> nat" where
  "nlz 0 x = 0"
| "nlz (Suc n) x = (if bit x n then 0 else Suc (nlz n x))"

definition builtin_clz :: "u32 \<Rightarrow> i32 option" where
  "builtin_clz x = (if x = 0 then None else Some (of_nat (nlz 32 x)))"

function bn_clz_loop :: "bn \<Rightarrow> i32 \<Rightarrow> i32 \<Rightarrow> kernel \<Rightarrow> i32 option" where
  "bn_clz_loop B i cnt s =
     (if 0 \<le> sint i then do {
        x \<leftarrow> load (number B) (unat i) s;
        if x \<noteq> 0 then do { z \<leftarrow> builtin_clz x; Some (cnt + z) }
        else bn_clz_loop B (i - 1) (cnt + 32) s }
      else Some cnt)"
  by pat_completeness auto
termination
proof (relation "measure (\<lambda>(B, i, cnt, s). nat (sint i + 1))", goal_cases)
  case 1
  show ?case by simp
next
  case (2 B i cnt s x)
  have "sint i < 2 ^ 31"
    using sint_lt [of i] by simp
  with 2 show ?case
    by (simp add: sint_word_ariths signed_take_bit_int_eq_self)
qed

declare bn_clz_loop.simps [simp del]

definition bn_clz :: "ptr \<Rightarrow> kernel \<Rightarrow> i32 option" where
  "bn_clz src s = do { B \<leftarrow> get_bn src s; bn_clz_loop B (size' B - 1) 0 s }"

definition bn_msb :: "ptr \<Rightarrow> kernel \<Rightarrow> i32 option" where
  "bn_msb src s = do { B \<leftarrow> get_bn src s; z \<leftarrow> bn_clz src s; Some (size' B * 32 - z) }"

definition bn_resize :: "ptr \<Rightarrow> u64 \<Rightarrow> kernel \<Rightarrow> (i32 \<times> kernel) option" where
  "bn_resize src sz s =
     (if src = NULL then Some (- 1, s)
      else do {
        B \<leftarrow> get_bn src s;
        if sz = ucast (size' B) then Some (0, s)
        else if sz = 0 then bn_free src s
        else do {
          (p, s1) \<leftarrow> krealloc (number B) (4 * sz) s;
          s2 \<leftarrow> put_bn src (B\<lparr>number := p\<rparr>) s1;
          if p = NULL then Some (- 1, s2)
          else do {
            s3 \<leftarrow> (if ucast (size' B) < sz
                    then memset0 p (unat (size' B)) (4 * (sz - ucast (size' B))) s2
                    else Some s2);
            s4 \<leftarrow> put_bn src (B\<lparr>number := p, size' := ucast sz\<rparr>) s3;
            Some (0, s4) } } })"

function bn_cmp_loop :: "bn \<Rightarrow> bn \<Rightarrow> i32 \<Rightarrow> kernel \<Rightarrow> i32 option" where
  "bn_cmp_loop A B i s =
     (if 0 \<le> sint i then do {
        x \<leftarrow> load (number A) (unat i) s;
        y \<leftarrow> load (number B) (unat i) s;
        if x \<noteq> y then Some (if x < y then 1 else - 1)
        else bn_cmp_loop A B (i - 1) s }
      else Some 0)"
  by pat_completeness auto
termination
proof (relation "measure (\<lambda>(A, B, i, s). nat (sint i + 1))", goal_cases)
  case 1
  show ?case by simp
next
  case (2 A B i s x y)
  have "sint i < 2 ^ 31"
    using sint_lt [of i] by simp
  with 2 show ?case
    by (simp add: sint_word_ariths signed_take_bit_int_eq_self)
qed

declare bn_cmp_loop.simps [simp del]

definition bn_cmp :: "ptr \<Rightarrow> ptr \<Rightarrow> kernel \<Rightarrow> i32 option" where
  "bn_cmp a b s = do {
     A \<leftarrow> get_bn a s;
     B \<leftarrow> get_bn b s;
     if size' A \<noteq> size' B then Some (if size' A < size' B then 1 else - 1)
     else bn_cmp_loop A B (size' A - 1) s }"

text \<open>
  The loops of \<^verbatim>\<open>bn_do_add\<close> and \<^verbatim>\<open>bn_do_sub\<close> write limb blocks only, so the structs
  \<open>A\<close>, \<open>B\<close>, \<open>C\<close> they read through \<^verbatim>\<open>a\<close>, \<^verbatim>\<open>b\<close>, \<^verbatim>\<open>c\<close> are fetched once, after the resize.
  The comparison \<^verbatim>\<open>i < c->size\<close> of an \<^verbatim>\<open>int\<close> with an \<^verbatim>\<open>unsigned int\<close> is unsigned.
\<close>

function bn_do_add_loop :: "bn \<Rightarrow> bn \<Rightarrow> bn \<Rightarrow> i32 \<Rightarrow> u64 \<Rightarrow> kernel \<Rightarrow> kernel option" where
  "bn_do_add_loop A B C i carry s =
     (if i < size' C then do {
        tmp1 \<leftarrow> (if i < size' A then load (number A) (unat i) s else Some 0);
        tmp2 \<leftarrow> (if i < size' B then load (number B) (unat i) s else Some 0);
        let carry1 = carry + (ucast tmp1 + ucast tmp2);
        s1 \<leftarrow> store (number C) (unat i) (ucast carry1) s;
        bn_do_add_loop A B C (i + 1) (drop_bit 32 carry1) s1 }
      else Some s)"
  by pat_completeness auto
termination
proof (relation "measure (\<lambda>(A, B, C, i, carry, s). unat (size' C) - unat i)", goal_cases)
  case 1
  show ?case by simp
next
  case (2 A B C i carry s tmp1 tmp2 carry1 s1)
  from \<open>i < size' C\<close> have "unat i < unat (size' C)"
    by (simp add: word_less_nat_alt)
  moreover have "unat (size' C) < 2 ^ 32"
    using unsigned_less [of "size' C", where ?'a = nat] by simp
  ultimately show ?case
    by (simp add: unat_word_ariths)
qed

declare bn_do_add_loop.simps [simp del]

definition DIV_ROUNDUP :: "i32 \<Rightarrow> i32 \<Rightarrow> i32" where
  "DIV_ROUNDUP x len = of_int (sint (x + len - 1) sdiv sint len)"

definition bn_do_add :: "ptr \<Rightarrow> ptr \<Rightarrow> ptr \<Rightarrow> kernel \<Rightarrow> kernel option" where
  "bn_do_add a b c s = do {
     ma \<leftarrow> bn_msb a s;
     mb \<leftarrow> bn_msb b s;
     let d = (if sint mb < sint ma then ma else mb) + 1;
     let d = DIV_ROUNDUP d 32 + (if d = 0 then 1 else 0);
     (_, s1) \<leftarrow> bn_resize c (scast d) s;
     A \<leftarrow> get_bn a s1;
     B \<leftarrow> get_bn b s1;
     C \<leftarrow> get_bn c s1;
     s2 \<leftarrow> bn_do_add_loop A B C 0 0 s1;
     C2 \<leftarrow> get_bn c s2;
     top \<leftarrow> load (number C2) (unat (size' C2 - 1)) s2;
     if top = 0 \<and> 1 < size' C2
     then do { (_, s3) \<leftarrow> bn_resize c (ucast (size' C2 - 1)) s2; Some s3 }
     else Some s2 }"

function bn_do_sub_loop :: "bn \<Rightarrow> bn \<Rightarrow> bn \<Rightarrow> i32 \<Rightarrow> i64 \<Rightarrow> kernel \<Rightarrow> kernel option" where
  "bn_do_sub_loop A B C i carry s =
     (if i < size' C then do {
        tmp1 \<leftarrow> (if i < size' A then load (number A) (unat i) s else Some 0);
        tmp2 \<leftarrow> (if i < size' B then load (number B) (unat i) s else Some 0);
        let carry1 = ucast tmp1 - ucast tmp2 - carry;
        if sint carry1 < 0 then do {
          s1 \<leftarrow> store (number C) (unat i) (ucast (carry1 + push_bit 32 1)) s;
          bn_do_sub_loop A B C (i + 1) 1 s1 }
        else do {
          s1 \<leftarrow> store (number C) (unat i) (ucast carry1) s;
          bn_do_sub_loop A B C (i + 1) 0 s1 } }
      else Some s)"
  by pat_completeness auto
termination
proof (relation "measure (\<lambda>(A, B, C, i, carry, s). unat (size' C) - unat i)", goal_cases)
  case 1
  show ?case by simp
next
  case (2 A B C i carry s tmp1 tmp2 carry1 s1)
  from \<open>i < size' C\<close> have "unat i < unat (size' C)"
    by (simp add: word_less_nat_alt)
  moreover have "unat (size' C) < 2 ^ 32"
    using unsigned_less [of "size' C", where ?'a = nat] by simp
  ultimately show ?case
    by (simp add: unat_word_ariths)
next
  case (3 A B C i carry s tmp1 tmp2 carry1 s1)
  from \<open>i < size' C\<close> have "unat i < unat (size' C)"
    by (simp add: word_less_nat_alt)
  moreover have "unat (size' C) < 2 ^ 32"
    using unsigned_less [of "size' C", where ?'a = nat] by simp
  ultimately show ?case
    by (simp add: unat_word_ariths)
qed

declare bn_do_sub_loop.simps [simp del]

definition bn_do_sub :: "ptr \<Rightarrow> ptr \<Rightarrow> ptr \<Rightarrow> kernel \<Rightarrow> kernel option" where
  "bn_do_sub a b c s = do {
     A0 \<leftarrow> get_bn a s;
     B0 \<leftarrow> get_bn b s;
     let d = (if size' B0 < size' A0 then size' A0 else size' B0);
     (_, s1) \<leftarrow> bn_resize c (scast d) s;
     A \<leftarrow> get_bn a s1;
     B \<leftarrow> get_bn b s1;
     C \<leftarrow> get_bn c s1;
     s2 \<leftarrow> bn_do_sub_loop A B C 0 0 s1;
     z \<leftarrow> bn_clz c s2;
     let d = of_int (sint z sdiv 32);
     C2 \<leftarrow> get_bn c s2;
     let d = (if d = size' C2 then d - 1 else d);
     (_, s3) \<leftarrow> bn_resize c (ucast (size' C2 - d)) s2;
     Some s3 }"

text \<open>The assignment \<^verbatim>\<open>c->sign = v\<close>.\<close>

definition set_sign :: "ptr \<Rightarrow> u32 \<Rightarrow> kernel \<Rightarrow> kernel option" where
  "set_sign c v s = do { C \<leftarrow> get_bn c s; put_bn c (C\<lparr>sign := v\<rparr>) s }"

definition bn_add :: "ptr \<Rightarrow> ptr \<Rightarrow> ptr \<Rightarrow> kernel \<Rightarrow> kernel option" where
  "bn_add a b c s = do {
     A \<leftarrow> get_bn a s;
     B \<leftarrow> get_bn b s;
     if sign A = sign B then do {
       s1 \<leftarrow> bn_do_add a b c s;
       A1 \<leftarrow> get_bn a s1;
       set_sign c (sign A1) s1 }
     else do {
       s1 \<leftarrow> (if sign A \<noteq> 0 then bn_swap a b s else Some s);
       cmp \<leftarrow> bn_cmp a b s1;
       if 0 < sint cmp then do {
         s2 \<leftarrow> bn_do_sub a b c s1;
         set_sign c 0 s2 }
       else if sint cmp < 0 then do {
         s2 \<leftarrow> bn_do_sub b a c s1;
         set_sign c 1 s2 }
       else do {
         (_, s2) \<leftarrow> bn_resize c 1 s1;
         C \<leftarrow> get_bn c s2;
         s3 \<leftarrow> store (number C) 0 0 s2;
         set_sign c 0 s3 } } }"

section \<open>Reading a bn out of the heap\<close>

text \<open>
  \<open>bn_at p s\<close> is the limb sequence (least significant limb first) and the sign flag of the
  bn that the pointer \<open>p\<close> designates, provided the struct is live, its \<^verbatim>\<open>number\<close> points to a
  live block and the block holds exactly \<^verbatim>\<open>size\<close> limbs.
\<close>

definition bn_at :: "ptr \<Rightarrow> kernel \<Rightarrow> (u32 list \<times> u32) option" where
  "bn_at p s = do {
     B \<leftarrow> get_bn p s;
     xs \<leftarrow> get_limbs (number B) s;
     if length xs = unat (size' B) then Some (xs, sign B) else None }"

text \<open>
  How \<^verbatim>\<open>bn_add\<close> reads the result of \<^verbatim>\<open>bn_cmp\<close>: positive is \<^verbatim>\<open>|a| > |b|\<close>, negative is
  \<^verbatim>\<open>|a| < |b|\<close>, zero is equality.
\<close>

datatype order3 = LESS | EQUAL | GREATER

definition verdict :: "i32 \<Rightarrow> order3" where
  "verdict cmp = (if 0 < sint cmp then GREATER else if sint cmp < 0 then LESS else EQUAL)"

text \<open>
  A kernel with three bn: \<^verbatim>\<open>a\<close> at address 1, \<^verbatim>\<open>b\<close> at address 2 and a destination at address 3,
  with their blocks at 11, 12 and 13. The allocator grants two requests, with blocks full
  of \<^verbatim>\<open>0xDEADBEEF\<close>.
\<close>

definition three_bn :: "u32 list \<Rightarrow> u32 \<Rightarrow> u32 list \<Rightarrow> u32 \<Rightarrow> u32 list \<Rightarrow> kernel" where
  "three_bn xs sa ys sb zs =
     \<lparr>heap = [1 \<mapsto> Struct \<lparr>number = Some 11, size' = of_nat (length xs), sign = sa\<rparr>,
              2 \<mapsto> Struct \<lparr>number = Some 12, size' = of_nat (length ys), sign = sb\<rparr>,
              3 \<mapsto> Struct \<lparr>number = Some 13, size' = of_nat (length zs), sign = 0\<rparr>,
              11 \<mapsto> Limbs xs, 12 \<mapsto> Limbs ys, 13 \<mapsto> Limbs zs],
      brk = 20, host = [Granted (\<lambda>i. 0xDEADBEEF), Granted (\<lambda>i. 0xDEADBEEF)],
      released = []\<rparr>"

section \<open>Magnitudes\<close>

text \<open>
  \<open>mag xs\<close> is the magnitude that the limbs \<open>xs\<close> denote, least significant limb first.
  \<open>clz_limbs xs\<close> is what \<^verbatim>\<open>bn_clz\<close> counts: the leading zero bits, scanning from the top limb
  (\<open>lead0\<close> takes the limbs from the top down). \<open>bits xs\<close> is what \<^verbatim>\<open>bn_msb\<close> computes.
\<close>

fun mag :: "u32 list \<Rightarrow> nat" where
  "mag [] = 0"
| "mag (x # xs) = unat x + 2 ^ 32 * mag xs"

fun lead0 :: "u32 list \<Rightarrow> nat" where
  "lead0 [] = 0"
| "lead0 (x # xs) = (if x \<noteq> 0 then nlz 32 x else 32 + lead0 xs)"

definition clz_limbs :: "u32 list \<Rightarrow> nat" where
  "clz_limbs xs = lead0 (rev xs)"

definition bits :: "u32 list \<Rightarrow> nat" where
  "bits xs = 32 * length xs - clz_limbs xs"

text \<open>The limbs the loops compute, from the limbs they read.\<close>

definition hd0 :: "u32 list \<Rightarrow> u32" where
  "hd0 xs = (case xs of [] \<Rightarrow> 0 | x # _ \<Rightarrow> x)"

fun addw :: "u32 list \<Rightarrow> u32 list \<Rightarrow> u64 \<Rightarrow> nat \<Rightarrow> u32 list" where
  "addw xs ys carry 0 = []"
| "addw xs ys carry (Suc k) =
     (let carry1 = carry + (ucast (hd0 xs) + ucast (hd0 ys))
      in ucast carry1 # addw (tl xs) (tl ys) (drop_bit 32 carry1) k)"

fun subw :: "u32 list \<Rightarrow> u32 list \<Rightarrow> i64 \<Rightarrow> nat \<Rightarrow> u32 list" where
  "subw xs ys carry 0 = []"
| "subw xs ys carry (Suc k) =
     (let carry1 = ucast (hd0 xs) - ucast (hd0 ys) - carry
      in if sint carry1 < 0 then ucast (carry1 + push_bit 32 1) # subw (tl xs) (tl ys) 1 k
         else ucast carry1 # subw (tl xs) (tl ys) 0 k)"

text \<open>The verdict of the loop of \<^verbatim>\<open>bn_cmp\<close>, on the limbs taken from the top down.\<close>

fun cmp_rev :: "u32 list \<Rightarrow> u32 list \<Rightarrow> i32" where
  "cmp_rev (x # xs) (y # ys) = (if x \<noteq> y then (if x < y then 1 else - 1) else cmp_rev xs ys)"
| "cmp_rev _ _ = 0"

text \<open>
  A well-formed heap: every live bn points to a live block of exactly \<^verbatim>\<open>size\<close> limbs, no two
  bn share a block, and no address from \<open>brk\<close> on is in use.
\<close>

definition wf_heap :: "kernel \<Rightarrow> bool" where
  "wf_heap s \<longleftrightarrow>
     (\<forall>p B. heap s p = Some (Struct B) \<longrightarrow>
        (\<exists>q xs. number B = Some q \<and> heap s q = Some (Limbs xs) \<and> length xs = unat (size' B)))
     \<and> (\<forall>p p' B B'. heap s p = Some (Struct B) \<and> heap s p' = Some (Struct B')
            \<and> number B = number B' \<longrightarrow> p = p')
     \<and> (\<forall>r. brk s \<le> r \<longrightarrow> heap s r = None)"

text \<open>The allocator grants its next \<open>k\<close> requests.\<close>

fun grants :: "nat \<Rightarrow> kresp list \<Rightarrow> bool" where
  "grants 0 h = True"
| "grants (Suc k) (Granted junk # h) = grants k h"
| "grants (Suc k) _ = False"

text \<open>
  The number of limbs \<^verbatim>\<open>bn_do_add\<close> asks for: \<^verbatim>\<open>max(msb(a), msb(b)) + 1\<close> bits, rounded up to
  whole limbs.
\<close>

definition capacity :: "u32 list \<Rightarrow> u32 list \<Rightarrow> nat" where
  "capacity xs ys = (max (bits xs) (bits ys) + 1 + 31) div 32"

text \<open>
  The largest limb count for which the \<^verbatim>\<open>int\<close> bit counts of \<^verbatim>\<open>bn_clz\<close>, \<^verbatim>\<open>bn_msb\<close> and
  \<^verbatim>\<open>bn_do_add\<close> stay below \<open>2^31\<close>.
\<close>

definition max_limbs :: nat where
  "max_limbs = 2 ^ 26 - 2"

text \<open>
  The trim at the end of \<^verbatim>\<open>bn_do_sub\<close>: drop the \<^verbatim>\<open>bn_clz / 32\<close> leading zero limbs, but keep
  one limb when all are zero.
\<close>

definition trim :: "u32 list \<Rightarrow> u32 list" where
  "trim ws = take (length ws - (let d = clz_limbs ws div 32 in if d = length ws then d - 1 else d)) ws"

section \<open>Words and naturals\<close>

lemma unat_of_nat32: "n < 2 ^ 32 \<Longrightarrow> unat (of_nat n :: u32) = n"
  by (simp add: unat_of_nat)

lemma unat_of_nat64: "n < 2 ^ 64 \<Longrightarrow> unat (of_nat n :: u64) = n"
  by (simp add: unat_of_nat)

lemma unat_lt32: "unat (w :: u32) < 2 ^ 32"
  using unsigned_less [of w, where ?'a = nat] by simp

lemma of_nat_eq32: "m < 2 ^ 32 \<Longrightarrow> n < 2 ^ 32 \<Longrightarrow> (of_nat m :: u32) = of_nat n \<longleftrightarrow> m = n"
  by (metis unat_of_nat32)

lemma of_nat_eq64: "m < 2 ^ 64 \<Longrightarrow> n < 2 ^ 64 \<Longrightarrow> (of_nat m :: u64) = of_nat n \<longleftrightarrow> m = n"
  by (metis unat_of_nat64)

lemma of_nat_less32: "m < 2 ^ 32 \<Longrightarrow> n < 2 ^ 32 \<Longrightarrow> (of_nat m :: u32) < of_nat n \<longleftrightarrow> m < n"
  by (simp add: word_less_nat_alt unat_of_nat32)

lemma of_nat_less64: "m < 2 ^ 64 \<Longrightarrow> n < 2 ^ 64 \<Longrightarrow> (of_nat m :: u64) < of_nat n \<longleftrightarrow> m < n"
  by (simp add: word_less_nat_alt unat_of_nat64)

lemma ucast_up_of_nat: "n < 2 ^ 32 \<Longrightarrow> (ucast (of_nat n :: u32) :: u64) = of_nat n"
proof -
  assume n: "n < 2 ^ 32"
  have "(ucast (of_nat n :: u32) :: u64) = of_nat (unat (of_nat n :: u32))"
    by simp
  with n show ?thesis
    by (simp only: unat_of_nat32)
qed

lemma ucast_down_of_nat: "(ucast (of_nat n :: u64) :: u32) = of_nat n"
  by (simp add: ucast_eq unsigned_of_nat word_of_nat_eq_iff)

lemma sint_of_nat32: "n < 2 ^ 31 \<Longrightarrow> sint (of_nat n :: i32) = int n"
  by (simp add: signed_of_nat signed_take_bit_int_eq_self)

lemma scast_of_nat32: "n < 2 ^ 31 \<Longrightarrow> (scast (of_nat n :: i32) :: u64) = of_nat n"
  by (simp add: scast_eq sint_of_nat32)

section \<open>Bit lengths and magnitudes\<close>

lemma nlz_upper: "n \<le> 32 \<Longrightarrow> take_bit n (unat x) < 2 ^ (n - nlz n x)"
proof (induction n)
  case 0
  then show ?case by simp
next
  case (Suc n)
  have b: "bit x n \<longleftrightarrow> bit (unat x) n"
    by (simp add: bit_unsigned_iff)
  show ?case
  proof (cases "bit x n")
    case True
    then show ?thesis
      using take_bit_nat_less_exp [of "Suc n" "unat x"] by (simp del: take_bit_Suc)
  next
    case False
    with b have "take_bit (Suc n) (unat x) = take_bit n (unat x)"
      by (simp add: take_bit_Suc_from_most)
    with False Suc show ?thesis by (simp del: take_bit_Suc)
  qed
qed

lemma nlz_lower:
  "n \<le> 32 \<Longrightarrow> take_bit n (unat x) \<noteq> 0 \<Longrightarrow> nlz n x < n \<and> 2 ^ (n - nlz n x - 1) \<le> take_bit n (unat x)"
proof (induction n)
  case 0
  then show ?case by simp
next
  case (Suc n)
  have b: "bit x n \<longleftrightarrow> bit (unat x) n"
    by (simp add: bit_unsigned_iff)
  show ?case
  proof (cases "bit x n")
    case True
    with b have "take_bit (Suc n) (unat x) = 2 ^ n + take_bit n (unat x)"
      by (simp add: take_bit_Suc_from_most)
    with True show ?thesis by (simp del: take_bit_Suc)
  next
    case False
    with b have e: "take_bit (Suc n) (unat x) = take_bit n (unat x)"
      by (simp add: take_bit_Suc_from_most)
    with Suc have "nlz n x < n \<and> 2 ^ (n - nlz n x - 1) \<le> take_bit n (unat x)"
      by simp
    with e False show ?thesis by (simp del: take_bit_Suc) 
  qed
qed

lemma take_bit32_unat: "take_bit 32 (unat (x :: u32)) = unat x"
  using unat_lt32 [of x] by (simp add: take_bit_nat_eq_self)

lemma nlz32_upper: "unat x < 2 ^ (32 - nlz 32 x)"
  using nlz_upper [of 32 x] unfolding take_bit32_unat by simp

lemma nlz32_lower: "x \<noteq> 0 \<Longrightarrow> nlz 32 x < 32 \<and> 2 ^ (31 - nlz 32 x) \<le> unat x"
  using nlz_lower [of 32 x] unfolding take_bit32_unat by (simp add: unat_0_iff)

lemma mag_append: "mag (xs @ ys) = mag xs + 2 ^ (32 * length xs) * mag ys"
  by (induction xs) (simp_all add: algebra_simps power_add)

lemma mag_lt: "mag xs < 2 ^ (32 * length xs)"
proof (induction xs)
  case Nil
  then show ?case by simp
next
  case (Cons x xs)
  have "unat x < 2 ^ 32" by (rule unat_lt32)
  moreover from Cons have "mag xs + 1 \<le> 2 ^ (32 * length xs)" by simp
  then have "2 ^ 32 * (mag xs + 1) \<le> 2 ^ 32 * 2 ^ (32 * length xs)"
    by (rule mult_le_mono2)
  ultimately show ?case by (simp add: power_add)
qed

lemma mag_replicate0 [simp]: "mag (replicate n 0) = 0"
  by (induction n) simp_all

lemma mag_take: "mag (take k xs) = mag xs mod 2 ^ (32 * k)"
proof (induction xs arbitrary: k)
  case Nil
  then show ?case by simp
next
  case (Cons x xs)
  show ?case
  proof (cases k)
    case 0
    then show ?thesis by simp
  next
    case (Suc j)
    have "(unat x + 2 ^ 32 * mag xs) mod (2 ^ 32 * 2 ^ (32 * j))
        = 2 ^ 32 * ((unat x + 2 ^ 32 * mag xs) div 2 ^ 32 mod 2 ^ (32 * j)) + (unat x + 2 ^ 32 * mag xs) mod 2 ^ 32"
      by (rule mod_mult2_eq)
    moreover have "(unat x + 2 ^ 32 * mag xs) div 2 ^ 32 = mag xs"
      using unat_lt32 [of x] by simp
    moreover have "(unat x + 2 ^ 32 * mag xs) mod 2 ^ 32 = unat x"
      using unat_lt32 [of x] by simp
    ultimately show ?thesis
      using Suc Cons [of j] by (simp add: power_add)
  qed
qed

lemma lead0_bounds:
  "lead0 ys \<le> 32 * length ys
   \<and> mag (rev ys) < 2 ^ (32 * length ys - lead0 ys)
   \<and> (lead0 ys < 32 * length ys \<longrightarrow> 2 ^ (32 * length ys - lead0 ys - 1) \<le> mag (rev ys))"
proof (induction ys)
  case Nil
  then show ?case by simp
next
  case (Cons y ys)
  let ?k = "length ys"
  have m: "mag (rev (y # ys)) = mag (rev ys) + 2 ^ (32 * ?k) * unat y"
    by (simp add: mag_append)
  show ?case
  proof (cases "y = 0")
    case True
    with Cons m show ?thesis by simp
  next
    case False
    let ?z = "nlz 32 y"
    from False have z: "?z < 32" and lo: "2 ^ (31 - ?z) \<le> unat y"
      using nlz32_lower [of y] by simp_all
    have up: "unat y + 1 \<le> 2 ^ (32 - ?z)"
      using nlz32_upper [of y] by simp
    have l: "lead0 (y # ys) = ?z"
      using False by simp
    have e1: "32 * length (y # ys) - ?z = 32 * ?k + (32 - ?z)"
      using z by simp
    have e2: "32 * length (y # ys) - ?z - 1 = 32 * ?k + (31 - ?z)"
      using z by simp
    have "mag (rev ys) < 2 ^ (32 * ?k)"
      using mag_lt [of "rev ys"] by simp
    then have "mag (rev (y # ys)) < 2 ^ (32 * ?k) * (unat y + 1)"
      unfolding m by simp
    also have "\<dots> \<le> 2 ^ (32 * ?k) * 2 ^ (32 - ?z)"
      using up by (rule mult_le_mono2)
    finally have A: "mag (rev (y # ys)) < 2 ^ (32 * length (y # ys) - ?z)"
      unfolding e1 by (simp add: power_add)
    have "2 ^ (32 * ?k) * 2 ^ (31 - ?z) \<le> 2 ^ (32 * ?k) * unat y"
      using lo by (rule mult_le_mono2)
    then have "2 ^ (32 * ?k) * 2 ^ (31 - ?z) \<le> mag (rev (y # ys))"
      unfolding m by (rule trans_le_add2)
    then have B: "2 ^ (32 * length (y # ys) - ?z - 1) \<le> mag (rev (y # ys))"
      unfolding e2 by (simp add: power_add)
    from z A B show ?thesis
      unfolding l by simp
  qed
qed

lemma clz_limbs_le: "clz_limbs xs \<le> 32 * length xs"
  using lead0_bounds [of "rev xs"] by (simp add: clz_limbs_def)

lemma mag_lt_bits: "mag xs < 2 ^ bits xs"
  using lead0_bounds [of "rev xs"] by (simp add: clz_limbs_def bits_def)

lemma mag_ge_bits: "0 < bits xs \<Longrightarrow> 2 ^ (bits xs - 1) \<le> mag xs"
  using lead0_bounds [of "rev xs"] by (simp add: clz_limbs_def bits_def)

lemma bits_le: "bits xs \<le> 32 * length xs"
  by (simp add: bits_def)

lemma last_nonzero:
  assumes "xs \<noteq> []" and "2 ^ (32 * (length xs - 1)) \<le> mag xs"
  shows "last xs \<noteq> 0"
proof
  assume z: "last xs = 0"
  from assms(1) have "xs = butlast xs @ [last xs]" by simp
  then have "mag xs = mag (butlast xs @ [last xs])" by simp
  also have "\<dots> = mag (butlast xs)"
    unfolding mag_append using z by simp
  finally have "mag xs < 2 ^ (32 * (length xs - 1))"
    using mag_lt [of "butlast xs"] by simp
  with assms(2) show False by simp
qed

section \<open>Limb-wise addition and subtraction\<close>

lemma length_addw [simp]: "length (addw xs ys carry k) = k"
  by (induction k arbitrary: xs ys carry) (simp_all add: Let_def)

lemma length_subw [simp]: "length (subw xs ys carry k) = k"
  by (induction k arbitrary: xs ys carry) (simp_all add: Let_def)

lemma mag_hd0_tl: "mag xs = unat (hd0 xs) + 2 ^ 32 * mag (tl xs)"
  by (cases xs) (simp_all add: hd0_def)

lemma unat_ucast_up: "unat (ucast (w :: u32) :: u64) = unat w"
proof -
  have "(ucast w :: u64) = of_nat (unat w)"
    by simp
  moreover have "unat w < 2 ^ 64"
    using unat_lt32 [of w] by simp
  ultimately show ?thesis
    by (simp only: unat_of_nat64)
qed

lemma add_step:
  fixes x y :: u32 and carry :: u64
  assumes "unat carry < 2 ^ 32"
  defines "t \<equiv> carry + (ucast x + ucast y)"
  shows "unat t = unat carry + unat x + unat y"
    and "unat (ucast t :: u32) = (unat carry + unat x + unat y) mod 2 ^ 32"
    and "unat (drop_bit 32 t) = (unat carry + unat x + unat y) div 2 ^ 32"
    and "unat (drop_bit 32 t) < 2 ^ 32"
proof -
  have x: "unat x < 2 ^ 32" and y: "unat y < 2 ^ 32"
    by (rule unat_lt32)+
  have "t = of_nat (unat carry + unat x + unat y)"
    unfolding t_def by simp
  moreover have "unat carry + unat x + unat y < 2 ^ 64"
    using assms(1) x y by simp
  ultimately show t: "unat t = unat carry + unat x + unat y"
    by (simp only: unat_of_nat64)
  show "unat (ucast t :: u32) = (unat carry + unat x + unat y) mod 2 ^ 32"
    unfolding t [symmetric] by (simp add: unsigned_ucast_eq take_bit_eq_mod)
  show d: "unat (drop_bit 32 t) = (unat carry + unat x + unat y) div 2 ^ 32"
    unfolding t [symmetric] by (simp add: unat_drop_bit_eq drop_bit_eq_div unat_div)
  show "unat (drop_bit 32 t) < 2 ^ 32"
    unfolding d using assms(1) x y by simp
qed

lemma split_mod:
  fixes a b M :: nat
  shows "(a + 2 ^ 32 * b) mod (2 ^ 32 * M) = a mod 2 ^ 32 + 2 ^ 32 * ((b + a div 2 ^ 32) mod M)"
proof -
  have "(a + 2 ^ 32 * b) mod (2 ^ 32 * M)
      = 2 ^ 32 * ((a + 2 ^ 32 * b) div 2 ^ 32 mod M) + (a + 2 ^ 32 * b) mod 2 ^ 32"
    by (rule mod_mult2_eq)
  moreover have "(a + 2 ^ 32 * b) div 2 ^ 32 = b + a div 2 ^ 32"
    by simp
  moreover have "(a + 2 ^ 32 * b) mod 2 ^ 32 = a mod 2 ^ 32"
    by simp
  ultimately show ?thesis by simp
qed

lemma mag_addw:
  "unat carry < 2 ^ 32 \<Longrightarrow>
     mag (addw xs ys carry k) = (mag xs + mag ys + unat carry) mod 2 ^ (32 * k)"
proof (induction k arbitrary: xs ys carry)
  case 0
  then show ?case by simp
next
  case (Suc k)
  let ?t = "carry + (ucast (hd0 xs) + ucast (hd0 ys))"
  let ?n = "unat carry + unat (hd0 xs) + unat (hd0 ys)"
  note st = add_step [OF Suc.prems, of "hd0 xs" "hd0 ys"]
  have "mag (addw xs ys carry (Suc k))
      = ?n mod 2 ^ 32 + 2 ^ 32 * ((mag (tl xs) + mag (tl ys) + ?n div 2 ^ 32) mod 2 ^ (32 * k))"
    using Suc.IH [OF st(4)] st(2,3) by (simp add: Let_def)
  also have "\<dots> = (?n + 2 ^ 32 * (mag (tl xs) + mag (tl ys))) mod (2 ^ 32 * 2 ^ (32 * k))"
    by (simp only: split_mod)
  also have "?n + 2 ^ 32 * (mag (tl xs) + mag (tl ys)) = mag xs + mag ys + unat carry"
    by (simp add: mag_hd0_tl [of xs] mag_hd0_tl [of ys])
  finally show ?case by (simp add: power_add)
qed

lemma sub_step:
  fixes x y :: u32 and carry :: i64
  assumes "carry = 0 \<or> carry = 1"
  defines "c1 \<equiv> ucast x - ucast y - carry"
  defines "D \<equiv> uint x - uint y - uint carry"
  shows "sint c1 = D"
    and "sint c1 < 0 \<Longrightarrow> int (unat (ucast (c1 + push_bit 32 1) :: u32)) = D + 2 ^ 32"
    and "\<not> sint c1 < 0 \<Longrightarrow> int (unat (ucast c1 :: u32)) = D"
    and "- (2 ^ 32) \<le> D" and "D < 2 ^ 32"
proof -
  have x: "uint x < 2 ^ 32" and y: "uint y < 2 ^ 32"
    using uint_lt2p [of x] uint_lt2p [of y] by simp_all
  have c: "uint carry = 0 \<or> uint carry = 1"
    using assms(1) by auto
  show lo: "- (2 ^ 32) \<le> D" and hi: "D < 2 ^ 32"
    using x y c uint_nonnegative [of x] uint_nonnegative [of y] unfolding D_def by linarith+
  have w: "c1 = word_of_int D"
    unfolding c1_def D_def by simp
  show s: "sint c1 = D"
    unfolding w using lo hi by (simp add: signed_of_int signed_take_bit_int_eq_self)
  have down: "unat (ucast (word_of_int E :: u64) :: u32) = nat E" if "0 \<le> E" "E < 2 ^ 32" for E
  proof -
    define n where "n = nat E"
    have E: "E = int n"
      using that(1) by (simp add: n_def)
    have n: "n < 2 ^ 32"
      using that(2) by (simp add: n_def)
    have "(word_of_int E :: u64) = of_nat n"
      unfolding E by simp
    then have "(ucast (word_of_int E :: u64) :: u32) = of_nat n"
      by (simp only: ucast_down_of_nat)
    then have "unat (ucast (word_of_int E :: u64) :: u32) = n"
      using n by (simp only: unat_of_nat32)
    then show ?thesis
      by (simp only: n_def)
  qed
  {
    assume "sint c1 < 0"
    with s have neg: "D < 0" by simp
    have "c1 + push_bit 32 1 = word_of_int (D + 2 ^ 32)"
      unfolding w by simp
    then show "int (unat (ucast (c1 + push_bit 32 1) :: u32)) = D + 2 ^ 32"
      using down [of "D + 2 ^ 32"] lo neg by simp
  }
  {
    assume "\<not> sint c1 < 0"
    with s have "0 \<le> D" by simp
    then show "int (unat (ucast c1 :: u32)) = D"
      unfolding w using down [of D] hi by simp
  }
qed

lemma split_mod_int:
  fixes a b M :: int
  assumes "0 \<le> M"
  shows "(a + 2 ^ 32 * b) mod (2 ^ 32 * M) = a mod 2 ^ 32 + 2 ^ 32 * ((b + a div 2 ^ 32) mod M)"
proof -
  have "(a + 2 ^ 32 * b) mod (2 ^ 32 * M)
      = 2 ^ 32 * ((a + 2 ^ 32 * b) div 2 ^ 32 mod M) + (a + 2 ^ 32 * b) mod 2 ^ 32"
    using assms by (rule zmod_zmult2_eq)
  moreover have "(a + 2 ^ 32 * b) div 2 ^ 32 = b + a div 2 ^ 32"
    by simp
  moreover have "(a + 2 ^ 32 * b) mod 2 ^ 32 = a mod 2 ^ 32"
    by simp
  ultimately show ?thesis by simp
qed

lemma mag_subw:
  "carry = 0 \<or> carry = 1 \<Longrightarrow>
     int (mag (subw xs ys carry k)) = (int (mag xs) - int (mag ys) - uint carry) mod 2 ^ (32 * k)"
proof (induction k arbitrary: xs ys carry)
  case 0
  then show ?case by simp
next
  case (Suc k)
  let ?c1 = "ucast (hd0 xs) - ucast (hd0 ys) - carry"
  let ?D = "uint (hd0 xs) - uint (hd0 ys) - uint carry"
  let ?R = "int (mag (tl xs)) - int (mag (tl ys))"
  note st = sub_step [OF Suc.prems, of "hd0 xs" "hd0 ys"]
  have whole: "int (mag xs) - int (mag ys) - uint carry = ?D + 2 ^ 32 * ?R"
    by (simp add: mag_hd0_tl [of xs] mag_hd0_tl [of ys] algebra_simps)
  have goal: "(?D + 2 ^ 32 * ?R) mod (2 ^ 32 * 2 ^ (32 * k))
      = ?D mod 2 ^ 32 + 2 ^ 32 * ((?R + ?D div 2 ^ 32) mod 2 ^ (32 * k))"
    by (rule split_mod_int) simp
  show ?case
  proof (cases "sint ?c1 < 0")
    case True
    with st(1) have neg: "?D < 0" by simp
    have m: "?D mod 2 ^ 32 = ?D + 2 ^ 32"
      by (rule int_mod_pos_eq [where q = "- 1"]) (use neg st(4) in simp_all)
    have d: "?D div 2 ^ 32 = - 1"
      by (rule int_div_pos_eq [where r = "?D + 2 ^ 32"]) (use neg st(4) in simp_all)
    have "int (mag (subw xs ys carry (Suc k)))
        = (?D + 2 ^ 32) + 2 ^ 32 * ((?R - 1) mod 2 ^ (32 * k))"
      using True st(2) [OF True] Suc.IH [of 1 "tl xs" "tl ys"] by (simp add: Let_def)
    then show ?thesis
      unfolding whole using goal m d by (simp add: power_add)
  next
    case False
    with st(1) have pos: "0 \<le> ?D" by simp
    have m: "?D mod 2 ^ 32 = ?D"
      using pos st(5) by simp
    have d: "?D div 2 ^ 32 = 0"
      using pos st(5) by simp
    have "int (mag (subw xs ys carry (Suc k)))
        = ?D + 2 ^ 32 * (?R mod 2 ^ (32 * k))"
      using False st(3) [OF False] Suc.IH [of 0 "tl xs" "tl ys"] by (simp add: Let_def)
    then show ?thesis
      unfolding whole using goal m d by (simp add: power_add)
  qed
qed

section \<open>The loops of bn_clz and bn_cmp\<close>

lemma size_of_length: "length xs = unat (w :: u32) \<Longrightarrow> w = of_nat (length xs)"
  by simp

lemma load_nth:
  "get_limbs p s = Some xs \<Longrightarrow> i < length xs \<Longrightarrow> load p i s = Some (xs ! i)"
  by (simp add: load_def)

lemma bn_clz_loop_eq:
  assumes "get_limbs (number B) s = Some xs" and "k \<le> length xs" and "length xs < 2 ^ 31"
  shows "bn_clz_loop B (of_nat k - 1) cnt s = Some (cnt + of_nat (lead0 (rev (take k xs))))"
  using assms(2)
proof (induction k arbitrary: cnt)
  case 0
  show ?case
    by (subst bn_clz_loop.simps) simp
next
  case (Suc j)
  then have j: "j < length xs" "j < 2 ^ 31" "j < 2 ^ 32"
    using assms(3) by simp_all
  have i: "sint (of_nat j :: i32) = int j" "unat (of_nat j :: i32) = j"
    using j by (simp_all add: sint_of_nat32 unat_of_nat32)
  have t: "rev (take (Suc j) xs) = xs ! j # rev (take j xs)"
    using j by (simp add: take_Suc_conv_app_nth)
  have ih: "bn_clz_loop B (of_nat j - 1) (cnt + 32) s = Some (cnt + 32 + of_nat (lead0 (rev (take j xs))))"
    using Suc by simp
  show ?case
    apply (subst bn_clz_loop.simps)
    using j i ih assms(1) by (simp add: load_nth t builtin_clz_def)
qed

lemma bn_clz_eq:
  assumes "get_bn p s = Some B" and "get_limbs (number B) s = Some xs"
    and "length xs = unat (size' B)" and "length xs < 2 ^ 31"
  shows "bn_clz p s = Some (of_nat (clz_limbs xs))"
proof -
  have "size' B = of_nat (length xs)"
    using assms(3) by simp
  then show ?thesis
    using bn_clz_loop_eq [OF assms(2) le_refl assms(4), of 0] assms(1)
    by (simp add: bn_clz_def clz_limbs_def)
qed

lemma bn_msb_eq:
  assumes "get_bn p s = Some B" and "get_limbs (number B) s = Some xs"
    and "length xs = unat (size' B)" and "length xs < 2 ^ 31"
  shows "bn_msb p s = Some (of_nat (bits xs))"
proof -
  have sz: "size' B = of_nat (length xs)"
    using assms(3) by simp
  have "(of_nat (length xs) :: u32) * 32 - of_nat (clz_limbs xs) = of_nat (32 * length xs - clz_limbs xs)"
    using clz_limbs_le [of xs] by (simp add: of_nat_diff)
  then show ?thesis
    using bn_clz_eq [OF assms] assms(1) sz by (simp add: bn_msb_def bits_def)
qed

lemma bn_cmp_loop_eq:
  assumes "get_limbs (number A) s = Some xs" and "get_limbs (number B) s = Some ys"
    and "k \<le> length xs" and "k \<le> length ys" and "length xs < 2 ^ 31"
  shows "bn_cmp_loop A B (of_nat k - 1) s = Some (cmp_rev (rev (take k xs)) (rev (take k ys)))"
  using assms(3,4)
proof (induction k)
  case 0
  show ?case
    by (subst bn_cmp_loop.simps) simp
next
  case (Suc j)
  then have j: "j < length xs" "j < length ys" "j < 2 ^ 31" "j < 2 ^ 32"
    using assms(5) by simp_all
  have i: "sint (of_nat j :: i32) = int j" "unat (of_nat j :: i32) = j"
    using j by (simp_all add: sint_of_nat32 unat_of_nat32)
  have t: "rev (take (Suc j) xs) = xs ! j # rev (take j xs)"
      "rev (take (Suc j) ys) = ys ! j # rev (take j ys)"
    using j by (simp_all add: take_Suc_conv_app_nth)
  have ih: "bn_cmp_loop A B (of_nat j - 1) s = Some (cmp_rev (rev (take j xs)) (rev (take j ys)))"
    using Suc by simp
  show ?case
    apply (subst bn_cmp_loop.simps)
    using j i ih assms(1,2) by (simp add: load_nth t)
qed

lemma cmp_rev_refl [simp]: "cmp_rev xs xs = 0"
  by (induction xs) simp_all

lemma cmp_rev_cases: "cmp_rev xs ys = 0 \<or> cmp_rev xs ys = 1 \<or> cmp_rev xs ys = - 1"
  by (induction xs ys rule: cmp_rev.induct) simp_all

lemma bn_cmp_eq:
  assumes "get_bn a s = Some A" and "get_limbs (number A) s = Some xs" and "length xs = unat (size' A)"
    and "get_bn b s = Some B" and "get_limbs (number B) s = Some ys" and "length ys = unat (size' B)"
    and "length xs < 2 ^ 31"
  shows "bn_cmp a b s = Some (if length xs \<noteq> length ys then (if length xs < length ys then 1 else - 1)
                              else cmp_rev (rev xs) (rev ys))"
proof (cases "length xs = length ys")
  case True
  have sz: "size' A = of_nat (length xs)" "size' B = of_nat (length xs)"
    using size_of_length [OF assms(3)] size_of_length [OF assms(6)] True by simp_all
  show ?thesis
    using bn_cmp_loop_eq [OF assms(2) assms(5) le_refl _ assms(7)] True assms(1,4) sz
    by (simp add: bn_cmp_def)
next
  case False
  then have "unat (size' A) \<noteq> unat (size' B)"
    using assms(3,6) by simp
  then have "size' A \<noteq> size' B"
    by auto
  moreover have "size' A < size' B \<longleftrightarrow> length xs < length ys"
    using assms(3,6) by (simp add: word_less_nat_alt)
  ultimately show ?thesis
    using False assms(1,4) by (simp add: bn_cmp_def)
qed

section \<open>Heap accesses and bn_resize\<close>

lemma grants_Suc: "grants (Suc k) h \<Longrightarrow> \<exists>junk rest. h = Granted junk # rest \<and> grants k rest"
  by (cases "(Suc k, h)" rule: grants.cases) auto

lemma grants_less: "grants (Suc k) h \<Longrightarrow> grants k h"
  by (induction k h rule: grants.induct) auto

lemma get_bn_Some: "get_bn (Some p) s = Some B \<longleftrightarrow> heap s p = Some (Struct B)"
  by (auto simp: get_bn_def split: option.splits cell.splits)

lemma get_limbs_Some: "get_limbs (Some q) s = Some xs \<longleftrightarrow> heap s q = Some (Limbs xs)"
  by (auto simp: get_limbs_def split: option.splits cell.splits)

lemma get_bn_NULL [simp]: "get_bn NULL s = None"
  by (simp add: get_bn_def)

lemma get_limbs_NULL [simp]: "get_limbs NULL s = None"
  by (simp add: get_limbs_def)

lemma bn_at_iff:
  "bn_at a s = Some (xs, sg) \<longleftrightarrow>
     (\<exists>p B q. a = Some p \<and> heap s p = Some (Struct B) \<and> number B = Some q
        \<and> heap s q = Some (Limbs xs) \<and> length xs = unat (size' B) \<and> sign B = sg)"
  by (cases a)
    (auto simp: bn_at_def get_bn_def get_limbs_def split: option.splits cell.splits bind_splits if_splits)

lemma put_bn_Struct:
  "heap s p = Some (Struct B0) \<Longrightarrow> put_bn (Some p) B s = Some (s\<lparr>heap := (heap s)(p \<mapsto> Struct B)\<rparr>)"
  by (simp add: put_bn_def)

lemma bytes_div4: "n < 2 ^ 32 \<Longrightarrow> unat (4 * (of_nat n :: u64)) div 4 = n"
proof -
  assume n: "n < 2 ^ 32"
  have "4 * (of_nat n :: u64) = of_nat (4 * n)" by simp
  moreover have "unat (of_nat (4 * n) :: u64) = 4 * n"
    using n by (intro unat_of_nat64) simp
  ultimately show ?thesis by simp
qed

lemma realloc_block:
  "map (\<lambda>i. if i < length xs then xs ! i else junk i) [0..<n]
     = take n xs @ map junk [length xs..<n]"
proof (cases "n \<le> length xs")
  case True
  then show ?thesis
    by (auto intro!: nth_equalityI)
next
  case False
  then show ?thesis
    by (auto intro!: nth_equalityI simp: nth_append)
qed

lemma bn_resize_same:
  assumes "heap s p = Some (Struct B)" and "unat (size' B) = n"
  shows "bn_resize (Some p) (of_nat n) s = Some (0, s)"
proof -
  have "(ucast (size' B) :: u64) = of_nat n"
    using assms(2) by auto
  with assms(1) show ?thesis
    by (simp add: bn_resize_def get_bn_def)
qed

lemma bn_resize_granted:
  assumes p: "heap s p = Some (Struct B)" and q: "number B = Some q"
    and xs: "heap s q = Some (Limbs xs)" and len: "length xs = unat (size' B)"
    and host: "host s = Granted junk # rest" and brk: "brk s \<noteq> p"
    and n: "n \<noteq> length xs" "0 < n" "n < 2 ^ 32"
  shows "bn_resize (Some p) (of_nat n) s =
     Some (0, s\<lparr>heap := (heap s)(q := None, brk s \<mapsto> Limbs (take n xs @ replicate (n - length xs) 0),
                                  p \<mapsto> Struct (B\<lparr>number := Some (brk s), size' := of_nat n\<rparr>)),
               brk := Suc (brk s), host := rest\<rparr>)"
proof -
  let ?m = "length xs"
  let ?blk = "take n xs @ map junk [?m..<n]"
  have pq: "p \<noteq> q" using p xs by auto
  have m: "?m < 2 ^ 32" "?m < 2 ^ 64" "n < 2 ^ 64"
    using len unat_lt32 [of "size' B"] n by simp_all
  have uc: "(ucast (size' B) :: u64) = of_nat ?m"
    using len by auto
  have ne: "(of_nat n :: u64) \<noteq> of_nat ?m"
    using n m by (simp add: of_nat_eq64)
  have nz: "(of_nat n :: u64) \<noteq> 0"
    using of_nat_eq64 [of n 0] n m by simp
  have lt: "(of_nat ?m :: u64) < of_nat n \<longleftrightarrow> ?m < n"
    using m by (simp add: of_nat_less64)
  define s1 where "s1 = s\<lparr>heap := (heap s)(q := None, brk s \<mapsto> Limbs ?blk),
                          brk := Suc (brk s), host := rest\<rparr>"
  have k: "krealloc (Some q) (4 * of_nat n) s = Some (Some (brk s), s1)"
    using xs host n by (simp add: krealloc_def get_limbs_def bytes_div4 realloc_block s1_def)
  have hp: "heap s1 p = Some (Struct B)"
    using p pq brk by (simp add: s1_def)
  define s2 where "s2 = s1\<lparr>heap := (heap s1)(p \<mapsto> Struct (B\<lparr>number := Some (brk s)\<rparr>))\<rparr>"
  have p2: "put_bn (Some p) (B\<lparr>number := Some (brk s)\<rparr>) s1 = Some s2"
    using hp by (simp add: put_bn_Struct s2_def)
  have b2: "heap s2 (brk s) = Some (Limbs ?blk)"
    using brk by (simp add: s2_def s1_def)
  define s3 where "s3 = s2\<lparr>heap := (heap s2)(brk s \<mapsto> Limbs (take n xs @ replicate (n - ?m) 0))\<rparr>"
  have ms: "memset0 (Some (brk s)) ?m (4 * (of_nat n - of_nat ?m)) s2 = Some s3" if "?m < n"
  proof -
    define bytes :: u64 where "bytes = 4 * (of_nat n - of_nat ?m)"
    have "(of_nat n - of_nat ?m :: u64) = of_nat (n - ?m)"
      using that by (simp add: of_nat_diff)
    moreover have "n - ?m < 2 ^ 32"
      using n by simp
    ultimately have c: "unat bytes div 4 = n - ?m"
      unfolding bytes_def by (simp only: bytes_div4)
    have "memset0 (Some (brk s)) ?m bytes s2 = Some s3"
      using b2 that by (simp add: memset0_def get_limbs_def c s3_def)
    then show ?thesis
      by (simp only: bytes_def)
  qed
  have s3': "s3 = s2" if "\<not> ?m < n"
  proof -
    have "(heap s2)(brk s \<mapsto> Limbs (take n xs @ replicate (n - ?m) 0)) = heap s2"
      using b2 that by (intro fun_upd_idem) simp
    then show ?thesis
      by (simp add: s3_def)
  qed
  have hp3: "heap s3 p = Some (Struct (B\<lparr>number := Some (brk s)\<rparr>))"
    using brk by (simp add: s3_def s2_def)
  have p4: "put_bn (Some p) (B\<lparr>number := Some (brk s), size' := ucast (of_nat n :: u64)\<rparr>) s3
      = Some (s3\<lparr>heap := (heap s3)(p \<mapsto> Struct (B\<lparr>number := Some (brk s), size' := of_nat n\<rparr>))\<rparr>)"
    using hp3 by (simp add: put_bn_Struct ucast_down_of_nat)
  have fin: "s3\<lparr>heap := (heap s3)(p \<mapsto> Struct (B\<lparr>number := Some (brk s), size' := of_nat n\<rparr>))\<rparr>
      = s\<lparr>heap := (heap s)(q := None, brk s \<mapsto> Limbs (take n xs @ replicate (n - length xs) 0),
                                  p \<mapsto> Struct (B\<lparr>number := Some (brk s), size' := of_nat n\<rparr>)),
               brk := Suc (brk s), host := rest\<rparr>"
    using brk pq by (simp add: s3_def s2_def s1_def fun_upd_twist)
  show ?thesis
  proof (cases "?m < n")
    case True
    show ?thesis
      unfolding bn_resize_def using p q uc ne nz lt k p2 ms [OF True] p4 True fin
      by (simp add: get_bn_def len [symmetric])
  next
    case False
    show ?thesis
      unfolding bn_resize_def using p q uc ne nz lt k p2 s3' [OF False] p4 False fin
      by (simp add: get_bn_def len [symmetric])
  qed
qed

section \<open>Well-formed heaps\<close>

lemma wf_struct:
  "wf_heap s \<Longrightarrow> heap s p = Some (Struct B) \<Longrightarrow>
     \<exists>q xs. number B = Some q \<and> heap s q = Some (Limbs xs) \<and> length xs = unat (size' B)"
  unfolding wf_heap_def by blast

lemma wf_distinct:
  "wf_heap s \<Longrightarrow> heap s p = Some (Struct B) \<Longrightarrow> heap s p' = Some (Struct B') \<Longrightarrow>
     number B = number B' \<Longrightarrow> p = p'"
  unfolding wf_heap_def by blast

lemma wf_fresh: "wf_heap s \<Longrightarrow> heap s r = Some v \<Longrightarrow> r < brk s"
  unfolding wf_heap_def by (metis not_le_imp_less option.distinct(1))

lemma wf_resized:
  fixes rest :: "kresp list"
  assumes wf_heap: "wf_heap s" and p: "heap s p = Some (Struct B)" and q: "number B = Some q"
    and xs: "heap s q = Some (Limbs xs)" and n: "n < 2 ^ 32" "length ws = n"
  defines "s' \<equiv> s\<lparr>heap := (heap s)(q := None, brk s \<mapsto> Limbs ws,
                                  p \<mapsto> Struct (B\<lparr>number := Some (brk s), size' := of_nat n\<rparr>)),
               brk := Suc (brk s), host := rest\<rparr>"
  shows "wf_heap s'"
    and "bn_at (Some p) s' = Some (ws, sign B)"
    and "\<forall>p'. p' \<noteq> p \<longrightarrow> bn_at (Some p') s' = bn_at (Some p') s"
proof -
  have pb: "p < brk s" and qb: "q < brk s"
    using wf_fresh [OF wf_heap p] wf_fresh [OF wf_heap xs] by simp_all
  have pq: "p \<noteq> q"
    using p xs by auto
  have un: "unat (of_nat n :: u32) = n"
    using n by (simp add: unat_of_nat32)
  have other: "heap s' r = heap s r" if "r \<noteq> p" "r \<noteq> q" "r \<noteq> brk s" for r
    using that by (simp add: s'_def)
  have hp: "heap s' p = Some (Struct (B\<lparr>number := Some (brk s), size' := of_nat n\<rparr>))"
    by (simp add: s'_def)
  have hb: "heap s' (brk s) = Some (Limbs ws)"
    using pb by (simp add: s'_def)
  have hq: "q \<noteq> brk s \<Longrightarrow> heap s' q = None"
    using pq by (simp add: s'_def)
  have st: "heap s r = Some (Struct B') \<and> r \<noteq> q \<and> r \<noteq> brk s"
    if "heap s' r = Some (Struct B')" "r \<noteq> p" for r B'
  proof -
    have "r \<noteq> brk s" using that hb by auto
    moreover have "r \<noteq> q" using that hq hb by (cases "q = brk s") auto
    ultimately show ?thesis using that other by simp
  qed
  have blk: "\<exists>q' ys. number B' = Some q' \<and> heap s q' = Some (Limbs ys) \<and> length ys = unat (size' B')
                \<and> q' \<noteq> q \<and> q' \<noteq> brk s \<and> q' \<noteq> p \<and> heap s' q' = Some (Limbs ys)"
    if "heap s r = Some (Struct B')" "r \<noteq> p" for r B'
  proof -
    from wf_struct [OF wf_heap that(1)] obtain q' ys where
      q': "number B' = Some q'" "heap s q' = Some (Limbs ys)" "length ys = unat (size' B')"
      by blast
    have "q' \<noteq> q"
      using wf_distinct [OF wf_heap that(1) p] q q' that(2) by auto
    moreover have "q' \<noteq> brk s"
      using wf_fresh [OF wf_heap q'(2)] by simp
    moreover have "q' \<noteq> p"
      using q'(2) p by auto
    ultimately show ?thesis
      using q' other by auto
  qed
  show "wf_heap s'"
    unfolding wf_heap_def
  proof (intro conjI allI impI)
    fix r B'
    assume r: "heap s' r = Some (Struct B')"
    show "\<exists>q xs. number B' = Some q \<and> heap s' q = Some (Limbs xs) \<and> length xs = unat (size' B')"
    proof (cases "r = p")
      case True
      with r hp hb n un show ?thesis by auto
    next
      case False
      from st [OF r False] blk [of r B'] False show ?thesis by blast
    qed
  next
    fix r r' B1 B2
    assume a: "heap s' r = Some (Struct B1) \<and> heap s' r' = Some (Struct B2) \<and> number B1 = number B2"
    show "r = r'"
    proof (cases "r = p"; cases "r' = p")
      assume "r = p" "r' = p"
      then show ?thesis by simp
    next
      assume c: "r = p" "r' \<noteq> p"
      with a hp have "number B2 = Some (brk s)" by auto
      moreover from a c st [of r' B2] blk [of r' B2] have "number B2 \<noteq> Some (brk s)" by auto
      ultimately show ?thesis by simp
    next
      assume c: "r \<noteq> p" "r' = p"
      with a hp have "number B1 = Some (brk s)" by auto
      moreover from a c st [of r B1] blk [of r B1] have "number B1 \<noteq> Some (brk s)" by auto
      ultimately show ?thesis by simp
    next
      assume c: "r \<noteq> p" "r' \<noteq> p"
      with a st [of r B1] st [of r' B2] have "heap s r = Some (Struct B1)" "heap s r' = Some (Struct B2)"
        by auto
      with a wf_distinct [OF wf_heap] show ?thesis by blast
    qed
  next
    fix r
    assume "brk s' \<le> r"
    then have r: "Suc (brk s) \<le> r" by (simp add: s'_def)
    then have "r \<noteq> p" "r \<noteq> q" "r \<noteq> brk s"
      using pb qb by simp_all
    then have "heap s' r = heap s r" by (rule other)
    moreover have "heap s r = None"
      using wf_heap r unfolding wf_heap_def by simp
    ultimately show "heap s' r = None" by simp
  qed
  show "bn_at (Some p) s' = Some (ws, sign B)"
    using hp hb n un by (simp add: bn_at_iff)
  show "\<forall>p'. p' \<noteq> p \<longrightarrow> bn_at (Some p') s' = bn_at (Some p') s"
  proof (intro allI impI)
    fix r
    assume rp: "r \<noteq> p"
    show "bn_at (Some r) s' = bn_at (Some r) s"
    proof (cases "\<exists>B'. heap s r = Some (Struct B')")
      case True
      then obtain B' where B': "heap s r = Some (Struct B')" by blast
      from blk [OF B' rp] obtain q' ys where
        q': "number B' = Some q'" "heap s q' = Some (Limbs ys)" "length ys = unat (size' B')"
          "heap s' q' = Some (Limbs ys)"
        by blast
      have "r \<noteq> q" "r \<noteq> brk s"
        using B' xs wf_fresh [OF wf_heap B'] by auto
      then have "heap s' r = Some (Struct B')"
        using other [OF rp] B' by simp
      then have "bn_at (Some r) s' = Some (ys, sign B')"
        using q' by (simp add: bn_at_iff)
      moreover have "bn_at (Some r) s = Some (ys, sign B')"
        using B' q' by (simp add: bn_at_iff)
      ultimately show ?thesis by simp
    next
      case False
      then have "bn_at (Some r) s = None"
        by (simp add: bn_at_def get_bn_def split: option.splits cell.splits)
      moreover have "\<not> (\<exists>B'. heap s' r = Some (Struct B'))"
        using False st [OF _ rp] by blast
      then have "bn_at (Some r) s' = None"
        by (simp add: bn_at_def get_bn_def split: option.splits cell.splits)
      ultimately show ?thesis by simp
    qed
  qed
qed

lemma bn_resize_wf:
  assumes wf_heap: "wf_heap s" and at: "bn_at (Some p) s = Some (xs, sg)"
    and n: "0 < n" "n < 2 ^ 32" and g: "grants (Suc k) (host s)"
  shows "\<exists>s'. bn_resize (Some p) (of_nat n) s = Some (0, s') \<and> wf_heap s'
           \<and> bn_at (Some p) s' = Some (take n xs @ replicate (n - length xs) 0, sg)
           \<and> (\<forall>p'. p' \<noteq> p \<longrightarrow> bn_at (Some p') s' = bn_at (Some p') s)
           \<and> grants k (host s')"
proof -
  from at obtain B q where
    B: "heap s p = Some (Struct B)" "number B = Some q" "heap s q = Some (Limbs xs)"
       "length xs = unat (size' B)" "sign B = sg"
    unfolding bn_at_iff by auto
  show ?thesis
  proof (cases "n = length xs")
    case True
    then have "bn_resize (Some p) (of_nat n) s = Some (0, s)"
      using bn_resize_same [OF B(1)] B(4) by simp
    with True wf_heap at grants_less [OF g] show ?thesis by simp
  next
    case False
    from grants_Suc [OF g] obtain junk rest where
      h: "host s = Granted junk # rest" "grants k rest"
      by blast
    have "brk s \<noteq> p"
      using wf_fresh [OF wf_heap B(1)] by simp
    note r = bn_resize_granted [OF B(1-4) h(1) this False n]
    note w = wf_resized [OF wf_heap B(1-3) n(2), of "take n xs @ replicate (n - length xs) 0" rest]
    have l: "length (take n xs @ replicate (n - length xs) 0) = n"
      by simp
    show ?thesis
      using r w(1) [OF l] w(2) [OF l] w(3) [OF l] h(2) B(5) by simp
  qed
qed

lemma bn_resize_brk:
  assumes wf_heap: "wf_heap s" and at: "bn_at (Some p) s = Some (xs, sg)"
    and n: "0 < n" "n < 2 ^ 32" and g: "grants (Suc k) (host s)"
    and run: "bn_resize (Some p) (of_nat n) s = Some (r, s')"
  shows "brk s' = brk s + (if n = length xs then 0 else 1)"
proof -
  from at obtain B q where
    B: "heap s p = Some (Struct B)" "number B = Some q" "heap s q = Some (Limbs xs)"
       "length xs = unat (size' B)"
    unfolding bn_at_iff by auto
  show ?thesis
  proof (cases "n = length xs")
    case True
    then have "bn_resize (Some p) (of_nat n) s = Some (0, s)"
      using bn_resize_same [OF B(1)] B(4) by simp
    with run True show ?thesis by simp
  next
    case False
    from grants_Suc [OF g] obtain junk rest where
      h: "host s = Granted junk # rest"
      by blast
    have "brk s \<noteq> p"
      using wf_fresh [OF wf_heap B(1)] by simp
    note bn_resize_granted [OF B(1-4) h(1) this False n]
    with run False show ?thesis by auto
  qed
qed

section \<open>The loops of bn_do_add and bn_do_sub\<close>

lemma hd0_drop: "hd0 (drop i xs) = (if i < length xs then xs ! i else 0)"
proof (cases "i < length xs")
  case True
  then have "drop i xs = xs ! i # drop (Suc i) xs"
    by (simp add: Cons_nth_drop_Suc)
  with True show ?thesis
    by (simp add: hd0_def)
next
  case False
  then show ?thesis
    by (simp add: hd0_def)
qed

lemma store_block:
  "heap s q = Some (Limbs zs) \<Longrightarrow> i < length zs \<Longrightarrow>
     store (Some q) i v s = Some (s\<lparr>heap := (heap s)(q \<mapsto> Limbs (zs[i := v]))\<rparr>)"
  by (simp add: store_def get_limbs_def)

lemma get_limbs_update:
  "get_limbs p s = Some xs \<Longrightarrow> heap s q = Some (Limbs zs) \<Longrightarrow>
     get_limbs p (s\<lparr>heap := (heap s)(q \<mapsto> Limbs zs')\<rparr>) = Some (if p = Some q then zs' else xs)"
  by (cases p) (auto simp: get_limbs_def split: option.splits cell.splits)

lemma get_limbs_same:
  "get_limbs (Some q) s = Some xs \<Longrightarrow> heap s q = Some (Limbs zs) \<Longrightarrow> xs = zs"
  by (simp add: get_limbs_def)

lemma word_index:
  assumes "i < unat (w :: u32)"
  shows "(of_nat i :: u32) < w" and "unat (of_nat i :: u32) = i" and "(of_nat (Suc i) :: u32) = of_nat i + 1"
proof -
  have i: "i < 2 ^ 32"
    using assms unat_lt32 [of w] by simp
  show u: "unat (of_nat i :: u32) = i"
    using i by (rule unat_of_nat32)
  show "(of_nat i :: u32) < w"
    using assms u by (simp add: word_less_nat_alt)
  show "(of_nat (Suc i) :: u32) = of_nat i + 1"
    by simp
qed

lemma word_index_beyond:
  assumes "unat (w :: u32) \<le> i" and "i < 2 ^ 32"
  shows "\<not> (of_nat i :: u32) < w"
  using assms by (simp add: word_less_nat_alt unat_of_nat32)

lemma read_limb:
  assumes "get_limbs p s = Some xs" and "length xs = unat (w :: u32)" and "i < 2 ^ 32"
  shows "(if (of_nat i :: u32) < w then load p (unat (of_nat i :: u32)) s else Some 0) = Some (hd0 (drop i xs))"
proof (cases "i < length xs")
  case True
  then have "(of_nat i :: u32) < w" "unat (of_nat i :: u32) = i"
    using word_index [of i w] assms(2) by simp_all
  with True assms(1) show ?thesis
    by (simp add: load_def hd0_drop)
next
  case False
  then have "\<not> (of_nat i :: u32) < w"
    using word_index_beyond [of w i] assms(2,3) by simp
  with False show ?thesis
    by (simp add: hd0_def)
qed

lemma bn_do_add_loop_eq:
  assumes "number C = Some qc" and "heap s qc = Some (Limbs zs)" and "length zs = unat (size' C)"
    and "get_limbs (number A) s = Some xs" and "length xs = unat (size' A)"
    and "get_limbs (number B) s = Some ys" and "length ys = unat (size' B)"
    and "i \<le> length zs"
  shows "bn_do_add_loop A B C (of_nat i) carry s =
     Some (s\<lparr>heap := (heap s)(qc \<mapsto> Limbs (take i zs @ addw (drop i xs) (drop i ys) carry (length zs - i)))\<rparr>)"
  using assms(2-8)
proof (induction "length zs - i" arbitrary: i carry s zs xs ys)
  case 0
  then have i: "i = length zs" by simp
  then have "\<not> (of_nat i :: u32) < size' C"
    using word_index_beyond [of "size' C" i] 0 unat_lt32 [of "size' C"] by simp
  moreover have "(heap s)(qc \<mapsto> Limbs zs) = heap s"
    using 0 by (intro fun_upd_idem) simp
  ultimately show ?case
    using i by (subst bn_do_add_loop.simps) simp
next
  case (Suc k)
  then have i: "i < length zs" "i < unat (size' C)" by simp_all
  note ix = word_index [OF i(2)]
  have i32: "i < 2 ^ 32"
    using i(2) unat_lt32 [of "size' C"] by simp
  let ?t = "carry + (ucast (hd0 (drop i xs)) + ucast (hd0 (drop i ys)))"
  let ?v = "ucast ?t :: u32"
  let ?s1 = "s\<lparr>heap := (heap s)(qc \<mapsto> Limbs (zs[i := ?v]))\<rparr>"
  let ?xs = "if number A = Some qc then zs[i := ?v] else xs"
  let ?ys = "if number B = Some qc then zs[i := ?v] else ys"
  have r1: "(if (of_nat i :: u32) < size' A then load (number A) (unat (of_nat i :: u32)) s else Some 0)
      = Some (hd0 (drop i xs))"
    using Suc.prems i32 by (intro read_limb) simp_all
  have r2: "(if (of_nat i :: u32) < size' B then load (number B) (unat (of_nat i :: u32)) s else Some 0)
      = Some (hd0 (drop i ys))"
    using Suc.prems i32 by (intro read_limb) simp_all
  have st: "store (number C) (unat (of_nat i :: u32)) ?v s = Some ?s1"
    using store_block [OF Suc.prems(1) i(1)] assms(1) ix(2) by simp
  have xz: "number A = Some qc \<Longrightarrow> xs = zs" and yz: "number B = Some qc \<Longrightarrow> ys = zs"
    using Suc.prems get_limbs_same by metis+
  have dx: "drop (Suc i) ?xs = drop (Suc i) xs" and dy: "drop (Suc i) ?ys = drop (Suc i) ys"
    using xz yz by simp_all
  have ih: "bn_do_add_loop A B C (of_nat (Suc i)) (drop_bit 32 ?t) ?s1 =
     Some (?s1\<lparr>heap := (heap ?s1)(qc \<mapsto> Limbs (take (Suc i) (zs[i := ?v])
        @ addw (drop (Suc i) ?xs) (drop (Suc i) ?ys) (drop_bit 32 ?t) (length (zs[i := ?v]) - Suc i)))\<rparr>)"
  proof (rule Suc.hyps(1))
    show "k = length (zs[i := ?v]) - Suc i"
      using Suc.hyps(2) by simp
    show "heap ?s1 qc = Some (Limbs (zs[i := ?v]))"
      by simp
    show "length (zs[i := ?v]) = unat (size' C)"
      using Suc.prems by simp
    show "get_limbs (number A) ?s1 = Some ?xs"
      using get_limbs_update [OF Suc.prems(3) Suc.prems(1)] by simp
    show "length ?xs = unat (size' A)"
      using Suc.prems xz by auto
    show "get_limbs (number B) ?s1 = Some ?ys"
      using get_limbs_update [OF Suc.prems(5) Suc.prems(1)] by simp
    show "length ?ys = unat (size' B)"
      using Suc.prems yz by auto
    show "Suc i \<le> length (zs[i := ?v])"
      using i by simp
  qed
  have n: "length zs - i = Suc (length zs - Suc i)"
    using i by simp
  have lim: "take i zs @ addw (drop i xs) (drop i ys) carry (length zs - i)
      = take (Suc i) (zs[i := ?v]) @ addw (drop (Suc i) xs) (drop (Suc i) ys) (drop_bit 32 ?t) (length zs - Suc i)"
    unfolding n using i by (simp add: Let_def take_Suc_conv_app_nth drop_Suc tl_drop)
  show ?case
    apply (subst bn_do_add_loop.simps)
    using ix(1) r1 r2 st ih
    by (simp add: Let_def ix(3) [symmetric] dx dy lim del: of_nat_Suc)
qed

lemma bn_do_sub_loop_eq:
  assumes "number C = Some qc" and "heap s qc = Some (Limbs zs)" and "length zs = unat (size' C)"
    and "get_limbs (number A) s = Some xs" and "length xs = unat (size' A)"
    and "get_limbs (number B) s = Some ys" and "length ys = unat (size' B)"
    and "i \<le> length zs"
  shows "bn_do_sub_loop A B C (of_nat i) carry s =
     Some (s\<lparr>heap := (heap s)(qc \<mapsto> Limbs (take i zs @ subw (drop i xs) (drop i ys) carry (length zs - i)))\<rparr>)"
  using assms(2-8)
proof (induction "length zs - i" arbitrary: i carry s zs xs ys)
  case 0
  then have i: "i = length zs" by simp
  then have "\<not> (of_nat i :: u32) < size' C"
    using word_index_beyond [of "size' C" i] 0 unat_lt32 [of "size' C"] by simp
  moreover have "(heap s)(qc \<mapsto> Limbs zs) = heap s"
    using 0 by (intro fun_upd_idem) simp
  ultimately show ?case
    using i by (subst bn_do_sub_loop.simps) simp
next
  case (Suc k)
  then have i: "i < length zs" "i < unat (size' C)" by simp_all
  note ix = word_index [OF i(2)]
  have i32: "i < 2 ^ 32"
    using i(2) unat_lt32 [of "size' C"] by simp
  let ?t = "ucast (hd0 (drop i xs)) - ucast (hd0 (drop i ys)) - carry :: i64"
  let ?v = "if sint ?t < 0 then ucast (?t + push_bit 32 1) else ucast ?t :: u32"
  let ?c = "if sint ?t < 0 then 1 else 0 :: i64"
  let ?s1 = "s\<lparr>heap := (heap s)(qc \<mapsto> Limbs (zs[i := ?v]))\<rparr>"
  let ?xs = "if number A = Some qc then zs[i := ?v] else xs"
  let ?ys = "if number B = Some qc then zs[i := ?v] else ys"
  have r1: "(if (of_nat i :: u32) < size' A then load (number A) (unat (of_nat i :: u32)) s else Some 0)
      = Some (hd0 (drop i xs))"
    using Suc.prems i32 by (intro read_limb) simp_all
  have r2: "(if (of_nat i :: u32) < size' B then load (number B) (unat (of_nat i :: u32)) s else Some 0)
      = Some (hd0 (drop i ys))"
    using Suc.prems i32 by (intro read_limb) simp_all
  have st: "store (number C) (unat (of_nat i :: u32)) v s = Some (s\<lparr>heap := (heap s)(qc \<mapsto> Limbs (zs[i := v]))\<rparr>)" for v
    using store_block [OF Suc.prems(1) i(1)] assms(1) ix(2) by simp
  have xz: "number A = Some qc \<Longrightarrow> xs = zs" and yz: "number B = Some qc \<Longrightarrow> ys = zs"
    using Suc.prems get_limbs_same by metis+
  have dx: "drop (Suc i) ?xs = drop (Suc i) xs" and dy: "drop (Suc i) ?ys = drop (Suc i) ys"
    using xz yz by simp_all
  have ih: "bn_do_sub_loop A B C (of_nat (Suc i)) ?c ?s1 =
     Some (?s1\<lparr>heap := (heap ?s1)(qc \<mapsto> Limbs (take (Suc i) (zs[i := ?v])
        @ subw (drop (Suc i) ?xs) (drop (Suc i) ?ys) ?c (length (zs[i := ?v]) - Suc i)))\<rparr>)"
  proof (rule Suc.hyps(1))
    show "k = length (zs[i := ?v]) - Suc i"
      using Suc.hyps(2) by simp
    show "heap ?s1 qc = Some (Limbs (zs[i := ?v]))"
      by simp
    show "length (zs[i := ?v]) = unat (size' C)"
      using Suc.prems by simp
    show "get_limbs (number A) ?s1 = Some ?xs"
      using get_limbs_update [OF Suc.prems(3) Suc.prems(1)] by simp
    show "length ?xs = unat (size' A)"
      using Suc.prems xz by auto
    show "get_limbs (number B) ?s1 = Some ?ys"
      using get_limbs_update [OF Suc.prems(5) Suc.prems(1)] by simp
    show "length ?ys = unat (size' B)"
      using Suc.prems yz by auto
    show "Suc i \<le> length (zs[i := ?v])"
      using i by simp
  qed
  have n: "length zs - i = Suc (length zs - Suc i)"
    using i by simp
  have lim: "take i zs @ subw (drop i xs) (drop i ys) carry (length zs - i)
      = take (Suc i) (zs[i := ?v]) @ subw (drop (Suc i) xs) (drop (Suc i) ys) ?c (length zs - Suc i)"
    unfolding n using i by (simp add: Let_def take_Suc_conv_app_nth drop_Suc tl_drop)
  show ?case
  proof (cases "sint ?t < 0")
    case True
    show ?thesis
      apply (subst bn_do_sub_loop.simps)
      using ix(1) r1 r2 st ih True
      by (simp add: Let_def ix(3) [symmetric] dx dy lim del: of_nat_Suc)
  next
    case False
    show ?thesis
      apply (subst bn_do_sub_loop.simps)
      using ix(1) r1 r2 st ih False
      by (simp add: Let_def ix(3) [symmetric] dx dy lim del: of_nat_Suc)
  qed
qed

lemma wf_block_update:
  assumes wf_heap: "wf_heap s" and c: "heap s p = Some (Struct C)" and q: "number C = Some q"
    and n: "length ws = unat (size' C)"
  defines "s' \<equiv> s\<lparr>heap := (heap s)(q \<mapsto> Limbs ws)\<rparr>"
  shows "wf_heap s'"
    and "bn_at (Some p) s' = Some (ws, sign C)"
    and "\<forall>p'. p' \<noteq> p \<longrightarrow> bn_at (Some p') s' = bn_at (Some p') s"
proof -
  from wf_struct [OF wf_heap c] q obtain zs where
    zs: "heap s q = Some (Limbs zs)" "length zs = unat (size' C)"
    by auto
  have st: "heap s' r = Some (Struct B') \<longleftrightarrow> heap s r = Some (Struct B')" for r B'
    using zs by (auto simp: s'_def)
  have other: "r \<noteq> q \<Longrightarrow> heap s' r = heap s r" for r
    by (simp add: s'_def)
  have hq: "heap s' q = Some (Limbs ws)"
    by (simp add: s'_def)
  have blk: "\<exists>q' ys. number B' = Some q' \<and> heap s q' = Some (Limbs ys) \<and> length ys = unat (size' B')
                \<and> q' \<noteq> q \<and> heap s' q' = Some (Limbs ys)"
    if "heap s r = Some (Struct B')" "r \<noteq> p" for r B'
  proof -
    from wf_struct [OF wf_heap that(1)] obtain q' ys where
      q': "number B' = Some q'" "heap s q' = Some (Limbs ys)" "length ys = unat (size' B')"
      by blast
    have "q' \<noteq> q"
      using wf_distinct [OF wf_heap that(1) c] q q' that(2) by auto
    then show ?thesis
      using q' other by auto
  qed
  show "wf_heap s'"
    unfolding wf_heap_def
  proof (intro conjI allI impI)
    fix r B'
    assume "heap s' r = Some (Struct B')"
    then have r: "heap s r = Some (Struct B')" by (simp only: st)
    show "\<exists>q xs. number B' = Some q \<and> heap s' q = Some (Limbs xs) \<and> length xs = unat (size' B')"
    proof (cases "r = p")
      case True
      with r c q hq n show ?thesis by auto
    next
      case False
      from blk [OF r False] show ?thesis by blast
    qed
  next
    fix r r' B1 B2
    assume "heap s' r = Some (Struct B1) \<and> heap s' r' = Some (Struct B2) \<and> number B1 = number B2"
    then have "heap s r = Some (Struct B1)" "heap s r' = Some (Struct B2)" "number B1 = number B2"
      by (simp_all only: st)
    then show "r = r'"
      by (rule wf_distinct [OF wf_heap])
  next
    fix r
    assume "brk s' \<le> r"
    then have r: "brk s \<le> r" by (simp add: s'_def)
    then have "r \<noteq> q"
      using wf_fresh [OF wf_heap zs(1)] by simp
    then have "heap s' r = heap s r" by (rule other)
    moreover have "heap s r = None"
      using wf_heap r unfolding wf_heap_def by simp
    ultimately show "heap s' r = None" by simp
  qed
  show "bn_at (Some p) s' = Some (ws, sign C)"
    using c q hq n st [of p C] by (simp add: bn_at_iff)
  show "\<forall>p'. p' \<noteq> p \<longrightarrow> bn_at (Some p') s' = bn_at (Some p') s"
  proof (intro allI impI)
    fix r
    assume rp: "r \<noteq> p"
    show "bn_at (Some r) s' = bn_at (Some r) s"
    proof (cases "\<exists>B'. heap s r = Some (Struct B')")
      case True
      then obtain B' where B': "heap s r = Some (Struct B')" by blast
      from blk [OF B' rp] obtain q' ys where
        q': "number B' = Some q'" "heap s q' = Some (Limbs ys)" "length ys = unat (size' B')"
          "heap s' q' = Some (Limbs ys)"
        by blast
      have "heap s' r = Some (Struct B')"
        using B' by (simp only: st)
      then have "bn_at (Some r) s' = Some (ys, sign B')"
        using q' by (simp add: bn_at_iff)
      moreover have "bn_at (Some r) s = Some (ys, sign B')"
        using B' q' by (simp add: bn_at_iff)
      ultimately show ?thesis by simp
    next
      case False
      then have "bn_at (Some r) s = None"
        by (simp add: bn_at_def get_bn_def split: option.splits cell.splits)
      moreover have "\<not> (\<exists>B'. heap s' r = Some (Struct B'))"
        using False st by blast
      then have "bn_at (Some r) s' = None"
        by (simp add: bn_at_def get_bn_def split: option.splits cell.splits)
      ultimately show ?thesis by simp
    qed
  qed
qed

section \<open>bn_do_add\<close>

lemma sdiv_nonneg: "0 \<le> k \<Longrightarrow> k sdiv (32 :: int) = k div 32"
  by (simp add: signed_divide_int_def sgn_if)

lemma add_capacity_word:
  fixes m1 m2 :: nat
  assumes "m1 + 32 < 2 ^ 31" and "m2 + 32 < 2 ^ 31"
  defines "d1 \<equiv> (if sint (of_nat m2 :: i32) < sint (of_nat m1 :: i32) then of_nat m1 else of_nat m2) + (1 :: i32)"
  shows "DIV_ROUNDUP d1 32 + (if d1 = 0 then 1 else 0) = of_nat ((max m1 m2 + 1 + 31) div 32)"
proof -
  let ?m = "max m1 m2"
  have s: "sint (of_nat m1 :: i32) = int m1" "sint (of_nat m2 :: i32) = int m2"
    using assms(1,2) by (simp_all add: sint_of_nat32)
  have d1: "d1 = of_nat (?m + 1)"
    unfolding d1_def s by (simp add: max_def)
  have m: "?m + 32 < 2 ^ 31"
    using assms(1,2) by (simp add: max_def)
  have nz: "d1 \<noteq> 0"
  proof
    assume "d1 = 0"
    then have "unat (of_nat (?m + 1) :: u32) = 0"
      unfolding d1 by simp
    moreover have "unat (of_nat (?m + 1) :: u32) = ?m + 1"
      using m by (intro unat_of_nat32) simp
    ultimately show False by simp
  qed
  have "d1 + 32 - 1 = of_nat (?m + 32)"
    unfolding d1 by simp
  then have "sint (d1 + 32 - 1) = int (?m + 32)"
    using m by (simp only: sint_of_nat32)
  moreover have "sint (32 :: i32) = 32"
    by simp
  ultimately have "DIV_ROUNDUP d1 32 = of_int (int (?m + 32) div 32)"
    unfolding DIV_ROUNDUP_def by (simp only: sdiv_nonneg of_nat_0_le_iff)
  also have "int (?m + 32) div 32 = int ((?m + 32) div 32)"
    by (simp add: zdiv_int)
  finally show ?thesis
    using nz by (simp add: add.commute)
qed

lemma capacity_bounds:
  assumes "length xs \<le> max_limbs" and "length ys \<le> max_limbs"
  shows "0 < capacity xs ys" and "capacity xs ys \<le> max_limbs + 1" and "capacity xs ys < 2 ^ 31"
    and "bits xs < 32 * capacity xs ys" and "bits ys < 32 * capacity xs ys"
    and "32 * capacity xs ys \<le> max (bits xs) (bits ys) + 32"
    and "bits xs + 32 < 2 ^ 31" and "bits ys + 32 < 2 ^ 31"
proof -
  have b: "bits xs \<le> 32 * max_limbs" "bits ys \<le> 32 * max_limbs"
    using bits_le [of xs] bits_le [of ys] assms by simp_all
  then show "bits xs + 32 < 2 ^ 31" "bits ys + 32 < 2 ^ 31"
    by (simp_all add: max_limbs_def)
  show "0 < capacity xs ys"
    by (simp add: capacity_def)
  have "max (bits xs) (bits ys) \<le> 32 * max_limbs"
    using b by simp
  then show c: "capacity xs ys \<le> max_limbs + 1"
    unfolding capacity_def by arith
  then show "capacity xs ys < 2 ^ 31"
    by (simp add: max_limbs_def)
  show "bits xs < 32 * capacity xs ys" "bits ys < 32 * capacity xs ys"
    "32 * capacity xs ys \<le> max (bits xs) (bits ys) + 32"
    unfolding capacity_def by arith+
qed

lemma bn_atD:
  assumes "bn_at a s = Some (xs, sg)"
  obtains p B q where "a = Some p" and "heap s p = Some (Struct B)" and "number B = Some q"
    and "heap s q = Some (Limbs xs)" and "length xs = unat (size' B)" and "sign B = sg"
    and "get_bn a s = Some B" and "get_limbs (number B) s = Some xs"
proof -
  from assms obtain p B q where
    *: "a = Some p" "heap s p = Some (Struct B)" "number B = Some q"
       "heap s q = Some (Limbs xs)" "length xs = unat (size' B)" "sign B = sg"
    unfolding bn_at_iff by blast
  then have "get_bn a s = Some B" "get_limbs (number B) s = Some xs"
    by (simp_all add: get_bn_Some get_limbs_Some)
  with * show ?thesis
    by (rule that)
qed

lemma mag_butlast: "xs \<noteq> [] \<Longrightarrow> last xs = 0 \<Longrightarrow> mag (butlast xs) = mag xs"
proof -
  assume a: "xs \<noteq> []" "last xs = 0"
  have "butlast xs @ [last xs] = xs"
    using a(1) by simp
  then have "mag xs = mag (butlast xs @ [last xs])" by (simp only:)
  also have "\<dots> = mag (butlast xs)"
    unfolding mag_append using a by simp
  finally show ?thesis by simp
qed

lemma mag_fits: "bits xs \<le> 32 * n \<Longrightarrow> mag (take n xs @ replicate (n - length xs) 0) = mag xs"
proof -
  assume b: "bits xs \<le> 32 * n"
  have "mag xs < 2 ^ bits xs" by (rule mag_lt_bits)
  also have "(2 :: nat) ^ bits xs \<le> 2 ^ (32 * n)"
    using b by (intro power_increasing) simp_all
  finally have "mag xs mod 2 ^ (32 * n) = mag xs" by simp
  then show ?thesis
    by (simp add: mag_append mag_take)
qed

lemma bn_do_add_core:
  assumes wf_heap: "wf_heap s"
    and at_a: "bn_at a s = Some (xs, sa)" and at_b: "bn_at b s = Some (ys, sb)"
    and at_c: "bn_at c s = Some (zs, sc)"
    and len: "length xs \<le> max_limbs" "length ys \<le> max_limbs"
    and g: "grants 2 (host s)"
  shows "\<exists>s1 s' ws.
      bn_resize c (of_nat (capacity xs ys)) s = Some (0, s1)
      \<and> bn_at c s1 = Some (take (capacity xs ys) zs @ replicate (capacity xs ys - length zs) 0, sc)
      \<and> bn_do_add a b c s = Some s' \<and> wf_heap s'
      \<and> length ws = capacity xs ys \<and> mag ws = mag xs + mag ys
      \<and> bn_at c s' = Some (if last ws = 0 \<and> 1 < length ws then butlast ws else ws, sc)
      \<and> (\<forall>p. p \<noteq> c \<longrightarrow> bn_at p s' = bn_at p s)"
proof -
  let ?N = "capacity xs ys"
  note cb = capacity_bounds [OF len]
  have l31: "length xs < 2 ^ 31" "length ys < 2 ^ 31"
    using len by (simp_all add: max_limbs_def)
  have N32: "?N < 2 ^ 32"
    using cb(3) by simp
  from at_a obtain pa A0 qa where a: "a = Some pa" "get_bn a s = Some A0"
      "get_limbs (number A0) s = Some xs" "length xs = unat (size' A0)"
    by (rule bn_atD)
  from at_b obtain pb B0 qb where b: "b = Some pb" "get_bn b s = Some B0"
      "get_limbs (number B0) s = Some ys" "length ys = unat (size' B0)"
    by (rule bn_atD)
  from at_c obtain pc where c: "c = Some pc"
    by (rule bn_atD)
  have ma: "bn_msb a s = Some (of_nat (bits xs))"
    using a l31 by (intro bn_msb_eq)
  have mb: "bn_msb b s = Some (of_nat (bits ys))"
    using b l31 by (intro bn_msb_eq)
  note d = add_capacity_word [OF cb(7,8), folded capacity_def]
  have sc: "(scast (of_nat ?N :: i32) :: u64) = of_nat ?N"
    using cb(3) by (rule scast_of_nat32)
  \<comment> \<open>the resize\<close>
  have g2: "grants (Suc 1) (host s)"
    using g by (simp add: numeral_2_eq_2)
  from bn_resize_wf [OF wf_heap at_c [unfolded c] cb(1) N32 g2] obtain s1 where
    s1: "bn_resize c (of_nat ?N) s = Some (0, s1)" "wf_heap s1"
        "bn_at c s1 = Some (take ?N zs @ replicate (?N - length zs) 0, sc)"
        "\<forall>p'. p' \<noteq> pc \<longrightarrow> bn_at (Some p') s1 = bn_at (Some p') s"
        "grants 1 (host s1)"
    unfolding c by auto
  define zs1 where "zs1 = take ?N zs @ replicate (?N - length zs) 0"
  have lz: "length zs1 = ?N"
    unfolding zs1_def by simp
  note s1c = s1(3) [folded zs1_def]
  define xs1 where "xs1 = (if a = c then zs1 else xs)"
  define ys1 where "ys1 = (if b = c then zs1 else ys)"
  have a1: "bn_at a s1 = Some (xs1, sa)"
    using s1c s1(4) at_a at_c a(1) c by (auto simp: xs1_def)
  have b1: "bn_at b s1 = Some (ys1, sb)"
    using s1c s1(4) at_b at_c b(1) c by (auto simp: ys1_def)
  have mx: "mag xs1 = mag xs"
    using at_a at_c cb(4) by (auto simp: xs1_def zs1_def intro!: mag_fits)
  have my: "mag ys1 = mag ys"
    using at_b at_c cb(5) by (auto simp: ys1_def zs1_def intro!: mag_fits)
  \<comment> \<open>the loop\<close>
  from a1 obtain A1 where A1: "get_bn a s1 = Some A1"
      "get_limbs (number A1) s1 = Some xs1" "length xs1 = unat (size' A1)"
    by (rule bn_atD)
  from b1 obtain B1 where B1: "get_bn b s1 = Some B1"
      "get_limbs (number B1) s1 = Some ys1" "length ys1 = unat (size' B1)"
    by (rule bn_atD)
  from s1c obtain pc' C1 qc where C1: "c = Some pc'" "heap s1 pc' = Some (Struct C1)"
      "number C1 = Some qc" "heap s1 qc = Some (Limbs zs1)" "length zs1 = unat (size' C1)"
      "sign C1 = sc" "get_bn c s1 = Some C1"
    by (rule bn_atD)
  have pc': "pc' = pc" using C1(1) c by simp
  define ws where "ws = addw xs1 ys1 0 ?N"
  define s2 where "s2 = s1\<lparr>heap := (heap s1)(qc \<mapsto> Limbs ws)\<rparr>"
  have loop: "bn_do_add_loop A1 B1 C1 0 0 s1 = Some s2"
    using bn_do_add_loop_eq [OF C1(3,4,5) A1(2,3) B1(2,3), of 0 0]
    by (simp add: s2_def ws_def lz)
  have lw: "length ws = ?N"
    by (simp add: ws_def)
  have "mag xs + mag ys < 2 ^ bits xs + 2 ^ bits ys"
    using mag_lt_bits [of xs] mag_lt_bits [of ys] by simp
  also have "\<dots> \<le> 2 ^ (32 * ?N - 1) + 2 ^ (32 * ?N - 1)"
    using cb(4,5) by (intro add_mono power_increasing) simp_all
  also have "\<dots> = 2 ^ (32 * ?N)"
    using cb(1) by (cases "32 * ?N") simp_all
  finally have fits: "mag xs + mag ys < 2 ^ (32 * ?N)" .
  have mw: "mag ws = mag xs + mag ys"
    using fits by (simp add: ws_def mag_addw mx my)
  have lw': "length ws = unat (size' C1)"
    using C1(5) lw lz by simp
  note u = wf_block_update [OF s1(2) C1(2,3) lw', folded s2_def]
  have at2: "bn_at c s2 = Some (ws, sc)"
    using u(2) C1(1,6) by simp
  have fr2: "\<forall>p'. p' \<noteq> pc \<longrightarrow> bn_at (Some p') s2 = bn_at (Some p') s"
    using u(3) s1(4) pc' by simp
  \<comment> \<open>the trim\<close>
  have C2: "get_bn c s2 = Some C1"
    using C1(1,2,4) by (auto simp: s2_def get_bn_def)
  have szC: "size' C1 = of_nat ?N"
    using size_of_length [OF C1(5)] lz by simp
  have N1: "(of_nat ?N - 1 :: u32) = of_nat (?N - 1)"
    using cb(1) by (simp add: of_nat_diff)
  have uN1: "unat (of_nat (?N - 1) :: u32) = ?N - 1"
    using N32 by (intro unat_of_nat32) simp
  have wne: "ws \<noteq> []"
    using lw cb(1) by auto
  have idx: "unat (size' C1 - 1) = ?N - 1"
    unfolding szC N1 by (rule uN1)
  have gl: "get_limbs (number C1) s2 = Some ws"
    using C1(3) by (simp add: get_limbs_def s2_def)
  have lst: "ws ! (?N - 1) = last ws"
    using wne lw by (simp add: last_conv_nth)
  have top: "load (number C1) (unat (size' C1 - 1)) s2 = Some (last ws)"
    unfolding load_def idx gl using lw cb(1) lst by simp
  have one: "(1 :: u32) < size' C1 \<longleftrightarrow> 1 < ?N"
    unfolding szC using of_nat_less32 [of 1 ?N] N32 by simp
  show ?thesis
  proof (cases "last ws = 0 \<and> 1 < ?N")
    case True
    have n1: "0 < ?N - 1" "?N - 1 < 2 ^ 32"
      using True N32 by simp_all
    have h2: "grants (Suc 0) (host s2)"
      using s1(5) by (simp add: s2_def)
    from bn_resize_wf [OF u(1) at2 [unfolded c] n1 h2] obtain s3 where
      s3: "bn_resize c (of_nat (?N - 1)) s2 = Some (0, s3)" "wf_heap s3"
          "bn_at c s3 = Some (take (?N - 1) ws @ replicate (?N - 1 - length ws) 0, sc)"
          "\<forall>p'. p' \<noteq> pc \<longrightarrow> bn_at (Some p') s3 = bn_at (Some p') s2"
      unfolding c by auto
    have uc: "(ucast (size' C1 - 1) :: u64) = of_nat (?N - 1)"
      unfolding szC N1 using n1(2) by (rule ucast_up_of_nat)
    have bl: "take (?N - 1) ws @ replicate (?N - 1 - length ws) 0 = butlast ws"
      using lw by (simp add: butlast_conv_take)
    have run: "bn_do_add a b c s = Some s3"
      unfolding bn_do_add_def
      using ma mb d sc s1(1) A1(1) B1(1) C1(7) loop C2 top True one uc s3(1)
      by (simp add: Let_def)
    have fr3: "\<forall>p. p \<noteq> c \<longrightarrow> bn_at p s3 = bn_at p s"
    proof (intro allI impI)
      fix p assume "p \<noteq> c"
      then show "bn_at p s3 = bn_at p s"
        using s3(4) fr2 c by (cases p) (auto simp: bn_at_def)
    qed
    show ?thesis
      using s1(1,3) run s3(2) lw mw s3(3) True fr3 bl by auto
  next
    case False
    have run: "bn_do_add a b c s = Some s2"
      unfolding bn_do_add_def
      using ma mb d sc s1(1) A1(1) B1(1) C1(7) loop C2 top False one
      by (simp add: Let_def) blast
    have fr3: "\<forall>p. p \<noteq> c \<longrightarrow> bn_at p s2 = bn_at p s"
    proof (intro allI impI)
      fix p assume "p \<noteq> c"
      then show "bn_at p s2 = bn_at p s"
        using fr2 c by (cases p) (auto simp: bn_at_def)
    qed
    show ?thesis
      using s1(1,3) run u(1) lw mw at2 False fr3 by auto
  qed
qed

section \<open>bn_do_sub\<close>

lemma trim_props:
  assumes "ws \<noteq> []"
  shows "mag (trim ws) = mag ws" and "trim ws \<noteq> []"
    and "length (trim ws) = 1 \<or> last (trim ws) \<noteq> 0"
    and "length (trim ws) \<le> length ws"
proof -
  define n where "n = length ws"
  define z where "z = clz_limbs ws"
  define k where "k = z div 32"
  define k' where "k' = (if k = n then k - 1 else k)"
  have n: "0 < n" using assms by (simp add: n_def)
  have zn: "z \<le> 32 * n"
    using clz_limbs_le [of ws] by (simp add: z_def n_def)
  have kn: "k \<le> n"
    using zn by (simp add: k_def)
  have k': "k' < n" "k' \<le> k"
    using kn n by (auto simp: k'_def)
  have kz: "32 * k \<le> z" "z < 32 * k + 32"
    unfolding k_def by arith+
  have t: "trim ws = take (n - k') ws"
    by (simp add: trim_def Let_def n_def z_def k_def k'_def)
  have lt: "length (trim ws) = n - k'"
    unfolding t by (simp add: n_def)
  show "length (trim ws) \<le> length ws"
    unfolding lt by (simp add: n_def)
  show ne: "trim ws \<noteq> []"
    using lt k' by auto
  have bw: "bits ws = 32 * n - z"
    by (simp add: bits_def n_def z_def)
  have "bits ws \<le> 32 * (n - k')"
    unfolding bw using kz k' by arith
  then have "mag (take (n - k') ws @ replicate (n - k' - length ws) 0) = mag ws"
    by (rule mag_fits)
  then show m: "mag (trim ws) = mag ws"
    unfolding t by (simp add: n_def)
  show "length (trim ws) = 1 \<or> last (trim ws) \<noteq> 0"
  proof (cases "k = n")
    case True
    then show ?thesis using lt n by (simp add: k'_def)
  next
    case False
    then have kl: "k < n" using kn by simp
    have ke: "k' = k" using False by (simp add: k'_def)
    have b: "0 < bits ws"
      unfolding bw using kz kl by arith
    have "32 * (n - k - 1) \<le> bits ws - 1"
      unfolding bw using kz kl by arith
    then have "(2 :: nat) ^ (32 * (n - k - 1)) \<le> 2 ^ (bits ws - 1)"
      by (intro power_increasing) simp_all
    also have "\<dots> \<le> mag ws"
      using b by (rule mag_ge_bits)
    finally have "2 ^ (32 * (length (trim ws) - 1)) \<le> mag (trim ws)"
      unfolding m lt ke by simp
    with ne have "last (trim ws) \<noteq> 0"
      by (rule last_nonzero)
    then show ?thesis by simp
  qed
qed

lemma sub_trim_word:
  fixes n z :: nat
  assumes "0 < n" and "n < 2 ^ 26" and "z \<le> 32 * n"
  defines "d \<equiv> (of_int (sint (of_nat z :: i32) sdiv 32) :: i32)"
  shows "(ucast ((of_nat n :: u32) - (if d = of_nat n then d - 1 else d)) :: u64)
       = of_nat (n - (let k = z div 32 in if k = n then k - 1 else k))"
    and "0 < n - (let k = z div 32 in if k = n then k - 1 else k)"
proof -
  let ?k = "z div 32"
  let ?k' = "if ?k = n then ?k - 1 else ?k"
  have z: "z < 2 ^ 31"
    using assms(2,3) by simp
  have kn: "?k \<le> n"
    using assms(3) by simp
  have b: "?k < 2 ^ 32" "n < 2 ^ 32"
    using kn assms(2) by simp_all
  have "sint (of_nat z :: i32) = int z"
    using z by (rule sint_of_nat32)
  then have "d = of_int (int z div 32)"
    unfolding d_def by (simp only: sdiv_nonneg of_nat_0_le_iff)
  also have "int z div 32 = int ?k"
    by (simp add: zdiv_int)
  finally have d: "d = of_nat ?k"
    by simp
  have eq: "d = of_nat n \<longleftrightarrow> ?k = n"
    unfolding d using b by (simp add: of_nat_eq32)
  have "(if d = of_nat n then d - 1 else d) = (of_nat ?k' :: u32)"
  proof (cases "?k = n")
    case True
    then have "1 \<le> ?k" using assms(1) by simp
    then have "(of_nat ?k - 1 :: u32) = of_nat (?k - 1)"
      by (simp add: of_nat_diff)
    with True eq d show ?thesis by simp
  next
    case False
    with eq d show ?thesis by simp
  qed
  moreover have k': "?k' < n"
    using kn assms(1) by auto
  then have "(of_nat n - of_nat ?k' :: u32) = of_nat (n - ?k')"
    by (simp add: of_nat_diff)
  moreover have "(ucast (of_nat (n - ?k') :: u32) :: u64) = of_nat (n - ?k')"
    using b by (intro ucast_up_of_nat) simp
  ultimately show "(ucast ((of_nat n :: u32) - (if d = of_nat n then d - 1 else d)) :: u64)
       = of_nat (n - (let k = z div 32 in if k = n then k - 1 else k))"
    by (simp add: Let_def)
  show "0 < n - (let k = z div 32 in if k = n then k - 1 else k)"
    using k' by (simp add: Let_def)
qed

lemma bn_do_sub_core:
  assumes wf_heap: "wf_heap s"
    and at_a: "bn_at a s = Some (xs, sa)" and at_b: "bn_at b s = Some (ys, sb)"
    and at_c: "bn_at c s = Some (zs, sc)"
    and len: "length xs \<le> max_limbs" "length ys \<le> max_limbs"
    and ne: "xs \<noteq> [] \<or> ys \<noteq> []"
    and g: "grants 2 (host s)"
  shows "\<exists>s1 s' ws.
      bn_resize c (of_nat (max (length xs) (length ys))) s = Some (0, s1)
      \<and> bn_at c s1 = Some (take (max (length xs) (length ys)) zs
                             @ replicate (max (length xs) (length ys) - length zs) 0, sc)
      \<and> bn_do_sub a b c s = Some s' \<and> wf_heap s'
      \<and> length ws = max (length xs) (length ys)
      \<and> int (mag ws) = (int (mag xs) - int (mag ys)) mod 2 ^ (32 * max (length xs) (length ys))
      \<and> bn_at c s' = Some (trim ws, sc)
      \<and> (\<forall>p. p \<noteq> c \<longrightarrow> bn_at p s' = bn_at p s)
      \<and> brk s' = brk s + (if length zs = max (length xs) (length ys) then 0 else 1)
                        + (if length (trim ws) = max (length xs) (length ys) then 0 else 1)"
proof -
  define N where "N = max (length xs) (length ys)"
  have N: "0 < N" "N \<le> max_limbs" "N < 2 ^ 26" "N < 2 ^ 31" "N < 2 ^ 32"
    "length xs \<le> N" "length ys \<le> N"
  proof -
    have "0 < length xs \<or> 0 < length ys"
      using ne by simp
    then show "0 < N"
      unfolding N_def by arith
    show "N \<le> max_limbs"
      using len by (simp add: N_def)
    then show "N < 2 ^ 26" "N < 2 ^ 31" "N < 2 ^ 32"
      by (simp_all add: max_limbs_def)
    show "length xs \<le> N" "length ys \<le> N"
      by (simp_all add: N_def)
  qed
  have l32: "length xs < 2 ^ 32" "length ys < 2 ^ 32"
    using N by simp_all
  from at_a obtain pa A0 qa where a: "a = Some pa" "get_bn a s = Some A0"
      "get_limbs (number A0) s = Some xs" "length xs = unat (size' A0)"
    by (rule bn_atD)
  from at_b obtain pb B0 qb where b: "b = Some pb" "get_bn b s = Some B0"
      "get_limbs (number B0) s = Some ys" "length ys = unat (size' B0)"
    by (rule bn_atD)
  from at_c obtain pc where c: "c = Some pc"
    by (rule bn_atD)
  have szA: "size' A0 = of_nat (length xs)" and szB: "size' B0 = of_nat (length ys)"
    using size_of_length [OF a(4)] size_of_length [OF b(4)] by simp_all
  have d: "(if size' B0 < size' A0 then size' A0 else size' B0) = of_nat N"
    unfolding szA szB using l32 by (simp add: of_nat_less32 N_def max_def)
  have sc: "(scast (of_nat N :: i32) :: u64) = of_nat N"
    using N(4) by (rule scast_of_nat32)
  \<comment> \<open>the resize\<close>
  have g2: "grants (Suc 1) (host s)"
    using g by (simp add: numeral_2_eq_2)
  from bn_resize_wf [OF wf_heap at_c [unfolded c] N(1) N(5) g2] obtain s1 where
    s1: "bn_resize c (of_nat N) s = Some (0, s1)" "wf_heap s1"
        "bn_at c s1 = Some (take N zs @ replicate (N - length zs) 0, sc)"
        "\<forall>p'. p' \<noteq> pc \<longrightarrow> bn_at (Some p') s1 = bn_at (Some p') s"
        "grants 1 (host s1)"
    unfolding c by auto
  define zs1 where "zs1 = take N zs @ replicate (N - length zs) 0"
  have lz: "length zs1 = N"
    unfolding zs1_def by simp
  note s1c = s1(3) [folded zs1_def]
  define xs1 where "xs1 = (if a = c then zs1 else xs)"
  define ys1 where "ys1 = (if b = c then zs1 else ys)"
  have a1: "bn_at a s1 = Some (xs1, sa)"
    using s1c s1(4) at_a at_c a(1) c by (auto simp: xs1_def)
  have b1: "bn_at b s1 = Some (ys1, sb)"
    using s1c s1(4) at_b at_c b(1) c by (auto simp: ys1_def)
  have mx: "mag xs1 = mag xs"
    using at_a at_c N(6) by (auto simp: xs1_def zs1_def mag_append)
  have my: "mag ys1 = mag ys"
    using at_b at_c N(7) by (auto simp: ys1_def zs1_def mag_append)
  \<comment> \<open>the loop\<close>
  from a1 obtain A1 where A1: "get_bn a s1 = Some A1"
      "get_limbs (number A1) s1 = Some xs1" "length xs1 = unat (size' A1)"
    by (rule bn_atD)
  from b1 obtain B1 where B1: "get_bn b s1 = Some B1"
      "get_limbs (number B1) s1 = Some ys1" "length ys1 = unat (size' B1)"
    by (rule bn_atD)
  from s1c obtain pc' C1 qc where C1: "c = Some pc'" "heap s1 pc' = Some (Struct C1)"
      "number C1 = Some qc" "heap s1 qc = Some (Limbs zs1)" "length zs1 = unat (size' C1)"
      "sign C1 = sc" "get_bn c s1 = Some C1"
    by (rule bn_atD)
  have pc': "pc' = pc" using C1(1) c by simp
  define ws where "ws = subw xs1 ys1 0 N"
  define s2 where "s2 = s1\<lparr>heap := (heap s1)(qc \<mapsto> Limbs ws)\<rparr>"
  have loop: "bn_do_sub_loop A1 B1 C1 0 0 s1 = Some s2"
    using bn_do_sub_loop_eq [OF C1(3,4,5) A1(2,3) B1(2,3), of 0 0]
    by (simp add: s2_def ws_def lz)
  have lw: "length ws = N"
    by (simp add: ws_def)
  have mw: "int (mag ws) = (int (mag xs) - int (mag ys)) mod 2 ^ (32 * N)"
    using mag_subw [of 0 xs1 ys1 N] by (simp add: ws_def mx my)
  have lw': "length ws = unat (size' C1)"
    using C1(5) lw lz by simp
  note u = wf_block_update [OF s1(2) C1(2,3) lw', folded s2_def]
  have at2: "bn_at c s2 = Some (ws, sc)"
    using u(2) C1(1,6) by simp
  have fr2: "\<forall>p'. p' \<noteq> pc \<longrightarrow> bn_at (Some p') s2 = bn_at (Some p') s"
    using u(3) s1(4) pc' by simp
  \<comment> \<open>the trim\<close>
  have wne: "ws \<noteq> []"
    using lw N(1) by auto
  from at2 obtain C2 where C2: "get_bn c s2 = Some C2"
      "get_limbs (number C2) s2 = Some ws" "length ws = unat (size' C2)"
    by (rule bn_atD)
  have szC: "size' C2 = of_nat N"
    using size_of_length [OF C2(3)] lw by simp
  have clz: "bn_clz c s2 = Some (of_nat (clz_limbs ws))"
    using C2 lw N(4) by (intro bn_clz_eq) simp_all
  have zle: "clz_limbs ws \<le> 32 * N"
    using clz_limbs_le [of ws] lw by simp
  note tw = sub_trim_word [OF N(1) N(3) zle]
  define M where "M = N - (let k = clz_limbs ws div 32 in if k = N then k - 1 else k)"
  have M: "0 < M" "M < 2 ^ 32" "M \<le> N"
    using tw(2) N(5) by (simp_all add: M_def)
  have tr: "take M ws @ replicate (M - length ws) 0 = trim ws"
    using M(3) lw by (simp add: trim_def M_def)
  have h2: "grants (Suc 0) (host s2)"
    using s1(5) by (simp add: s2_def)
  from bn_resize_wf [OF u(1) at2 [unfolded c] M(1,2) h2] obtain s3 where
    s3: "bn_resize c (of_nat M) s2 = Some (0, s3)" "wf_heap s3"
        "bn_at c s3 = Some (take M ws @ replicate (M - length ws) 0, sc)"
        "\<forall>p'. p' \<noteq> pc \<longrightarrow> bn_at (Some p') s3 = bn_at (Some p') s2"
    unfolding c by auto
  have run: "bn_do_sub a b c s = Some s3"
    unfolding bn_do_sub_def
    using a(2) b(2) d sc s1(1) A1(1) B1(1) C1(7) loop clz C2(1) szC tw(1) [folded M_def] s3(1)
    by (simp add: Let_def)
  have fr3: "\<forall>p. p \<noteq> c \<longrightarrow> bn_at p s3 = bn_at p s"
  proof (intro allI impI)
    fix p assume "p \<noteq> c"
    then show "bn_at p s3 = bn_at p s"
      using s3(4) fr2 c by (cases p) (auto simp: bn_at_def)
  qed
  have k1: "brk s1 = brk s + (if length zs = N then 0 else 1)"
    using bn_resize_brk [OF wf_heap at_c [unfolded c] N(1) N(5) g2 s1(1) [unfolded c]] by auto
  have k2: "brk s2 = brk s1"
    by (simp add: s2_def)
  have lt: "length (trim ws) = M"
    using M(3) lw tr [symmetric] by simp
  have k3: "brk s3 = brk s2 + (if length (trim ws) = N then 0 else 1)"
    using bn_resize_brk [OF u(1) at2 [unfolded c] M(1,2) h2 s3(1) [unfolded c]] lw lt by auto
  have bk: "brk s3 = brk s + (if length zs = N then 0 else 1) + (if length (trim ws) = N then 0 else 1)"
    unfolding k3 k2 k1 ..
  have "bn_resize c (of_nat N) s = Some (0, s1) \<and> bn_at c s1 = Some (take N zs @ replicate (N - length zs) 0, sc)
      \<and> bn_do_sub a b c s = Some s3 \<and> wf_heap s3 \<and> length ws = N
      \<and> int (mag ws) = (int (mag xs) - int (mag ys)) mod 2 ^ (32 * N)
      \<and> bn_at c s3 = Some (trim ws, sc) \<and> (\<forall>p. p \<noteq> c \<longrightarrow> bn_at p s3 = bn_at p s)
      \<and> brk s3 = brk s + (if length zs = N then 0 else 1) + (if length (trim ws) = N then 0 else 1)"
    using s1(1,3) run s3(2) lw mw s3(3) fr3 tr bk by simp
  then show ?thesis
    unfolding N_def by blast
qed

section \<open>bn_swap, the sign and bn_add\<close>

lemma bn_at_None: "(\<nexists>B. heap s p = Some (Struct B)) \<Longrightarrow> bn_at (Some p) s = None"
  by (simp add: bn_at_def get_bn_def split: option.splits cell.splits)

lemma bn_at_struct:
  "heap s p = Some (Struct B) \<Longrightarrow> number B = Some q \<Longrightarrow> heap s q = Some (Limbs xs) \<Longrightarrow>
     length xs = unat (size' B) \<Longrightarrow> bn_at (Some p) s = Some (xs, sign B)"
  by (simp add: bn_at_iff)

lemma wf_bn_at:
  assumes "wf_heap s" and "heap s p = Some (Struct B)"
  obtains q xs where "number B = Some q" and "heap s q = Some (Limbs xs)"
    and "length xs = unat (size' B)" and "bn_at (Some p) s = Some (xs, sign B)"
proof -
  from wf_struct [OF assms] obtain q xs where
    *: "number B = Some q" "heap s q = Some (Limbs xs)" "length xs = unat (size' B)"
    by blast
  with assms(2) have "bn_at (Some p) s = Some (xs, sign B)"
    by (simp add: bn_at_struct)
  with * show ?thesis by (rule that)
qed

lemma set_sign_wf:
  assumes wf_heap: "wf_heap s" and at: "bn_at c s = Some (ws, sc)"
  shows "\<exists>s'. set_sign c v s = Some s' \<and> wf_heap s' \<and> bn_at c s' = Some (ws, v)
           \<and> (\<forall>p. p \<noteq> c \<longrightarrow> bn_at p s' = bn_at p s)"
proof -
  from at obtain p C q where C: "c = Some p" "heap s p = Some (Struct C)" "number C = Some q"
      "heap s q = Some (Limbs ws)" "length ws = unat (size' C)" "get_bn c s = Some C"
    by (rule bn_atD)
  define s' where "s' = s\<lparr>heap := (heap s)(p \<mapsto> Struct (C\<lparr>sign := v\<rparr>))\<rparr>"
  have run: "set_sign c v s = Some s'"
    using C by (simp add: set_sign_def put_bn_def s'_def)
  have pq: "p \<noteq> q" using C by auto
  have other: "r \<noteq> p \<Longrightarrow> heap s' r = heap s r" for r
    by (simp add: s'_def)
  have hp: "heap s' p = Some (Struct (C\<lparr>sign := v\<rparr>))"
    by (simp add: s'_def)
  have lim: "heap s' r = Some (Limbs xs) \<longleftrightarrow> heap s r = Some (Limbs xs)" for r xs
    using C(2) by (auto simp: s'_def)
  have st: "\<exists>B0. heap s r = Some (Struct B0) \<and> number B0 = number B' \<and> size' B0 = size' B'
              \<and> (r \<noteq> p \<longrightarrow> B0 = B')"
    if "heap s' r = Some (Struct B')" for r B'
    using that C(2) by (cases "r = p") (auto simp: s'_def)
  have "wf_heap s'"
    unfolding wf_heap_def
  proof (intro conjI allI impI)
    fix r B'
    assume "heap s' r = Some (Struct B')"
    from st [OF this] obtain B0 where
      B0: "heap s r = Some (Struct B0)" "number B0 = number B'" "size' B0 = size' B'"
      by blast
    from wf_struct [OF wf_heap B0(1)] B0(2,3)
    show "\<exists>q xs. number B' = Some q \<and> heap s' q = Some (Limbs xs) \<and> length xs = unat (size' B')"
      by (auto simp: lim)
  next
    fix r r' B1 B2
    assume a: "heap s' r = Some (Struct B1) \<and> heap s' r' = Some (Struct B2) \<and> number B1 = number B2"
    from a st [of r B1] obtain B1' where 1: "heap s r = Some (Struct B1')" "number B1' = number B1"
      by blast
    from a st [of r' B2] obtain B2' where 2: "heap s r' = Some (Struct B2')" "number B2' = number B2"
      by blast
    from a 1 2 show "r = r'"
      by (intro wf_distinct [OF wf_heap 1(1) 2(1)]) simp
  next
    fix r
    assume "brk s' \<le> r"
    then have r: "brk s \<le> r" by (simp add: s'_def)
    then have "r \<noteq> p" using wf_fresh [OF wf_heap C(2)] by simp
    then have "heap s' r = heap s r" by (rule other)
    moreover have "heap s r = None"
      using wf_heap r unfolding wf_heap_def by simp
    ultimately show "heap s' r = None" by simp
  qed
  moreover have "bn_at c s' = Some (ws, v)"
    unfolding C(1) using hp C(3,4,5) pq by (intro bn_at_struct [where B = "C\<lparr>sign := v\<rparr>", simplified]) (simp_all add: lim)
  moreover have "\<forall>r. r \<noteq> c \<longrightarrow> bn_at r s' = bn_at r s"
  proof (intro allI impI)
    fix r assume rc: "r \<noteq> c"
    show "bn_at r s' = bn_at r s"
    proof (cases r)
      case None
      then show ?thesis by (simp add: bn_at_def get_bn_def)
    next
      case (Some r')
      then have rp: "r' \<noteq> p" using rc C(1) by auto
      show ?thesis
      proof (cases "\<exists>B'. heap s r' = Some (Struct B')")
        case True
        then obtain B' where B': "heap s r' = Some (Struct B')" by blast
        from wf_heap B' obtain q' ys where q': "number B' = Some q'" "heap s q' = Some (Limbs ys)"
            "length ys = unat (size' B')" "bn_at (Some r') s = Some (ys, sign B')"
          by (rule wf_bn_at)
        have "heap s' r' = Some (Struct B')"
          using other [OF rp] B' by simp
        then have "bn_at (Some r') s' = Some (ys, sign B')"
          using q' by (intro bn_at_struct) (simp_all add: lim)
        with q'(4) Some show ?thesis by simp
      next
        case False
        then have "\<nexists>B'. heap s' r' = Some (Struct B')"
          using other [OF rp] by simp
        with False Some show ?thesis
          by (simp add: bn_at_None)
      qed
    qed
  qed
  ultimately show ?thesis
    using run by blast
qed

lemma bn_swap_wf:
  assumes wf_heap: "wf_heap s" and at_a: "bn_at a s = Some (xs, sa)" and at_b: "bn_at b s = Some (ys, sb)"
    and ab: "a \<noteq> b"
  shows "\<exists>s'. bn_swap a b s = Some s' \<and> wf_heap s' \<and> host s' = host s
           \<and> bn_at a s' = Some (ys, sb) \<and> bn_at b s' = Some (xs, sa)
           \<and> (\<forall>p. p \<noteq> a \<and> p \<noteq> b \<longrightarrow> bn_at p s' = bn_at p s)"
proof -
  from at_a obtain pa A qa where A: "a = Some pa" "heap s pa = Some (Struct A)" "number A = Some qa"
      "heap s qa = Some (Limbs xs)" "length xs = unat (size' A)" "sign A = sa" "get_bn a s = Some A"
    by (rule bn_atD)
  from at_b obtain pb B qb where B: "b = Some pb" "heap s pb = Some (Struct B)" "number B = Some qb"
      "heap s qb = Some (Limbs ys)" "length ys = unat (size' B)" "sign B = sb" "get_bn b s = Some B"
    by (rule bn_atD)
  have pab: "pa \<noteq> pb" using ab A(1) B(1) by simp
  define s' where "s' = s\<lparr>heap := (heap s)(pa \<mapsto> Struct B, pb \<mapsto> Struct A)\<rparr>"
  define f where "f r = (if r = pa then pb else if r = pb then pa else r)" for r
  have run: "bn_swap a b s = Some s'"
    using A B pab by (simp add: bn_swap_def put_bn_def s'_def)
  have lim: "heap s' r = Some (Limbs zs) \<longleftrightarrow> heap s r = Some (Limbs zs)" for r zs
    using A(2) B(2) by (auto simp: s'_def)
  have st: "heap s' r = Some (Struct B') \<longleftrightarrow> heap s (f r) = Some (Struct B')" for r B'
    using A(2) B(2) pab by (auto simp: s'_def f_def)
  have finj: "f r = f r' \<Longrightarrow> r = r'" for r r'
    by (auto simp: f_def split: if_splits)
  have at: "bn_at (Some r) s' = bn_at (Some (f r)) s" for r
  proof (cases "\<exists>B'. heap s (f r) = Some (Struct B')")
    case True
    then obtain B' where B': "heap s (f r) = Some (Struct B')" by blast
    from wf_heap B' obtain q' zs where q': "number B' = Some q'" "heap s q' = Some (Limbs zs)"
        "length zs = unat (size' B')" "bn_at (Some (f r)) s = Some (zs, sign B')"
      by (rule wf_bn_at)
    have "heap s' r = Some (Struct B')"
      using B' by (simp add: st)
    then have "bn_at (Some r) s' = Some (zs, sign B')"
      using q' by (intro bn_at_struct) (simp_all add: lim)
    with q'(4) show ?thesis by simp
  next
    case False
    then have "\<nexists>B'. heap s' r = Some (Struct B')"
      by (simp add: st)
    with False show ?thesis
      by (simp add: bn_at_None)
  qed
  have "wf_heap s'"
    unfolding wf_heap_def
  proof (intro conjI allI impI)
    fix r B'
    assume "heap s' r = Some (Struct B')"
    then have "heap s (f r) = Some (Struct B')" by (simp add: st)
    from wf_struct [OF wf_heap this]
    show "\<exists>q xs. number B' = Some q \<and> heap s' q = Some (Limbs xs) \<and> length xs = unat (size' B')"
      by (auto simp: lim)
  next
    fix r r' B1 B2
    assume "heap s' r = Some (Struct B1) \<and> heap s' r' = Some (Struct B2) \<and> number B1 = number B2"
    then have "heap s (f r) = Some (Struct B1)" "heap s (f r') = Some (Struct B2)" "number B1 = number B2"
      by (simp_all add: st)
    then have "f r = f r'" by (rule wf_distinct [OF wf_heap])
    then show "r = r'" by (rule finj)
  next
    fix r
    assume "brk s' \<le> r"
    then have r: "brk s \<le> r" by (simp add: s'_def)
    then have "r \<noteq> pa" "r \<noteq> pb"
      using wf_fresh [OF wf_heap A(2)] wf_fresh [OF wf_heap B(2)] by simp_all
    then have "heap s' r = heap s r" by (simp add: s'_def)
    moreover have "heap s r = None"
      using wf_heap r unfolding wf_heap_def by simp
    ultimately show "heap s' r = None" by simp
  qed
  moreover have "host s' = host s"
    by (simp add: s'_def)
  moreover have "bn_at a s' = Some (ys, sb)"
    unfolding A(1) at using at_b B(1) by (simp add: f_def)
  moreover have "bn_at b s' = Some (xs, sa)"
    unfolding B(1) at using at_a A(1) pab by (simp add: f_def)
  moreover have "\<forall>p. p \<noteq> a \<and> p \<noteq> b \<longrightarrow> bn_at p s' = bn_at p s"
  proof (intro allI impI)
    fix p assume p: "p \<noteq> a \<and> p \<noteq> b"
    show "bn_at p s' = bn_at p s"
    proof (cases p)
      case None
      then show ?thesis by (simp add: bn_at_def get_bn_def)
    next
      case (Some r)
      with p A(1) B(1) have "f r = r" by (auto simp: f_def)
      with at [of r] Some show ?thesis by simp
    qed
  qed
  ultimately show ?thesis
    using run by blast
qed

lemma zero_branch:
  assumes wf_heap: "wf_heap s" and at_c: "bn_at c s = Some (zs, sc)" and g: "grants (Suc k) (host s)"
  shows "\<exists>s'. (do { (_, s2) \<leftarrow> bn_resize c 1 s; C \<leftarrow> get_bn c s2;
                      s3 \<leftarrow> store (number C) 0 0 s2; set_sign c 0 s3 }) = Some s'
           \<and> wf_heap s' \<and> bn_at c s' = Some ([0], 0)
           \<and> (\<forall>p. p \<noteq> c \<longrightarrow> bn_at p s' = bn_at p s)"
proof -
  from at_c obtain pc where c: "c = Some pc"
    by (rule bn_atD)
  have one: "(0 :: nat) < 1" "(1 :: nat) < 2 ^ 32" by simp_all
  from bn_resize_wf [OF wf_heap at_c [unfolded c] one g] obtain s2 where
    s2: "bn_resize c 1 s = Some (0, s2)" "wf_heap s2"
        "bn_at c s2 = Some (take 1 zs @ replicate (1 - length zs) 0, sc)"
        "\<forall>p'. p' \<noteq> pc \<longrightarrow> bn_at (Some p') s2 = bn_at (Some p') s"
    unfolding c by auto
  define ws where "ws = take 1 zs @ replicate (1 - length zs) 0"
  have lw: "length ws = 1"
    by (cases zs) (simp_all add: ws_def)
  note s2c = s2(3) [folded ws_def]
  from s2c obtain pc' C qc where C: "c = Some pc'" "heap s2 pc' = Some (Struct C)"
      "number C = Some qc" "heap s2 qc = Some (Limbs ws)" "length ws = unat (size' C)"
      "sign C = sc" "get_bn c s2 = Some C"
    by (rule bn_atD)
  have pc': "pc' = pc" using C(1) c by simp
  define s3 where "s3 = s2\<lparr>heap := (heap s2)(qc \<mapsto> Limbs [0])\<rparr>"
  have "ws[0 := 0] = [0]"
    using lw by (cases ws) simp_all
  then have st: "store (number C) 0 0 s2 = Some s3"
    using store_block [OF C(4), of 0 0] lw C(3) by (simp add: s3_def)
  have l0: "length [0 :: u32] = unat (size' C)"
    using C(5) lw by simp
  note u = wf_block_update [OF s2(2) C(2,3) l0, folded s3_def]
  have at3: "bn_at c s3 = Some ([0], sc)"
    using u(2) C(1,6) by simp
  from set_sign_wf [OF u(1) at3, of 0] obtain s4 where
    s4: "set_sign c 0 s3 = Some s4" "wf_heap s4" "bn_at c s4 = Some ([0], 0)"
        "\<forall>p. p \<noteq> c \<longrightarrow> bn_at p s4 = bn_at p s3"
    by blast
  have fr: "\<forall>p. p \<noteq> c \<longrightarrow> bn_at p s4 = bn_at p s"
  proof (intro allI impI)
    fix p assume pcn: "p \<noteq> c"
    show "bn_at p s4 = bn_at p s"
    proof (cases p)
      case None
      then show ?thesis by (simp add: bn_at_def get_bn_def)
    next
      case (Some r)
      with pcn c have "r \<noteq> pc" by auto
      with s4(4) u(3) s2(4) pcn pc' Some show ?thesis by simp
    qed
  qed
  have "(do { (_, s2) \<leftarrow> bn_resize c 1 s; C \<leftarrow> get_bn c s2;
              s3 \<leftarrow> store (number C) 0 0 s2; set_sign c 0 s3 }) = Some s4"
    using s2(1) C(7) st s4(1) by simp
  with s4(2,3) fr show ?thesis by blast
qed

lemma add_normalized:
  assumes len: "length xs \<le> max_limbs" "length ys \<le> max_limbs"
    and lw: "length ws = capacity xs ys" and mw: "mag ws = mag xs + mag ys"
  defines "rs \<equiv> (if last ws = 0 \<and> 1 < length ws then butlast ws else ws)"
  shows "rs \<noteq> []" and "length rs = 1 \<or> last rs \<noteq> 0" and "mag rs = mag xs + mag ys"
proof -
  define N where "N = capacity xs ys"
  define m where "m = max (bits xs) (bits ys)"
  note cb = capacity_bounds [OF len, folded N_def m_def]
  have lN: "length ws = N" using lw by (simp add: N_def)
  have wne: "ws \<noteq> []" using lN cb(1) by auto
  show "rs \<noteq> []"
    using wne lN by (auto simp: rs_def dest!: arg_cong [where f = length])
  show "mag rs = mag xs + mag ys"
    using wne mw by (simp add: rs_def mag_butlast)
  show "length rs = 1 \<or> last rs \<noteq> 0"
  proof (cases "last ws = 0 \<and> 1 < length ws")
    case False
    then have "rs = ws" by (auto simp: rs_def)
    moreover have "0 < length ws"
      using wne by simp
    then have "length ws = 1 \<or> last ws \<noteq> 0"
      using False by arith
    ultimately show ?thesis by simp
  next
    case True
    then have rs: "rs = butlast ws" by (simp add: rs_def)
    have lr: "length rs = N - 1" using rs lN by simp
    have N2: "2 \<le> N" using True lN by simp
    have rne: "rs \<noteq> []" using lr N2 by auto
    have mr: "mag rs = mag xs + mag ys"
      using rs wne True mw by (simp add: mag_butlast)
    have m32: "32 * (N - 1) \<le> m"
      using cb(6) N2 by arith
    then have mpos: "0 < m" using N2 by arith
    have lo: "2 ^ (m - 1) \<le> mag xs + mag ys"
    proof (cases "bits ys \<le> bits xs")
      case True
      then have "m = bits xs" by (simp add: m_def)
      with mpos mag_ge_bits [of xs] show ?thesis by simp
    next
      case False
      then have "m = bits ys" by (simp add: m_def)
      with mpos mag_ge_bits [of ys] show ?thesis by simp
    qed
    have e: "32 * (N - 1 - 1) \<le> m - 1"
      using m32 N2 by arith
    have p: "(2 :: nat) ^ (32 * (N - 1 - 1)) \<le> 2 ^ (m - 1)"
      using e by (intro power_increasing) simp_all
    have "2 ^ (32 * (length rs - 1)) \<le> mag rs"
      unfolding lr mr using p lo by (rule le_trans)
    with rne have "last rs \<noteq> 0" by (rule last_nonzero)
    then show ?thesis by simp
  qed
qed

lemma bn_add_opposite:
  assumes wf_heap: "wf_heap s"
    and at_a: "bn_at a s = Some (xs, sa)" and at_b: "bn_at b s = Some (ys, sb)"
    and at_c: "bn_at c s = Some (zs, sc)"
    and len: "length xs \<le> max_limbs" "length ys \<le> max_limbs"
    and g: "grants 2 (host s)"
  shows "\<exists>s' rs sg.
      (do { cmp \<leftarrow> bn_cmp a b s;
            if 0 < sint cmp then do {
              s2 \<leftarrow> bn_do_sub a b c s;
              set_sign c 0 s2 }
            else if sint cmp < 0 then do {
              s2 \<leftarrow> bn_do_sub b a c s;
              set_sign c 1 s2 }
            else do {
              (_, s2) \<leftarrow> bn_resize c 1 s;
              C \<leftarrow> get_bn c s2;
              s3 \<leftarrow> store (number C) 0 0 s2;
              set_sign c 0 s3 } }) = Some s'
      \<and> wf_heap s' \<and> bn_at c s' = Some (rs, sg) \<and> rs \<noteq> [] \<and> (length rs = 1 \<or> last rs \<noteq> 0)
      \<and> (xs = ys \<longrightarrow> rs = [0] \<and> sg = 0)"
proof -
  from at_a obtain A where A: "get_bn a s = Some A"
      "get_limbs (number A) s = Some xs" "length xs = unat (size' A)"
    by (rule bn_atD)
  from at_b obtain B where B: "get_bn b s = Some B"
      "get_limbs (number B) s = Some ys" "length ys = unat (size' B)"
    by (rule bn_atD)
  have l31: "length xs < 2 ^ 31"
    using len by (simp add: max_limbs_def)
  define v where "v = (if length xs \<noteq> length ys then (if length xs < length ys then 1 else - 1)
                       else cmp_rev (rev xs) (rev ys) :: i32)"
  have cmp: "bn_cmp a b s = Some v"
    unfolding v_def using A B l31 by (intro bn_cmp_eq)
  have vc: "v = 0 \<or> v = 1 \<or> v = - 1"
    using cmp_rev_cases [of "rev xs" "rev ys"] by (auto simp: v_def)
  have veq: "xs = ys \<Longrightarrow> v = 0"
    by (simp add: v_def)
  have vne: "v \<noteq> 0 \<Longrightarrow> xs \<noteq> [] \<or> ys \<noteq> []"
    by (auto simp: v_def)
  have g1: "grants (Suc 1) (host s)"
    using g by (simp add: numeral_2_eq_2)
  from vc show ?thesis
  proof (elim disjE)
    assume v0: "v = 0"
    from zero_branch [OF wf_heap at_c g1] obtain s' where
      z: "(do { (_, s2) \<leftarrow> bn_resize c 1 s; C \<leftarrow> get_bn c s2;
                s3 \<leftarrow> store (number C) 0 0 s2; set_sign c 0 s3 }) = Some s'"
         "wf_heap s'" "bn_at c s' = Some ([0], 0)"
      by blast
    show ?thesis
      using cmp v0 z by simp
  next
    assume v1: "v = 1"
    then have ne: "xs \<noteq> [] \<or> ys \<noteq> []" using vne by simp
    from bn_do_sub_core [OF wf_heap at_a at_b at_c len ne g] obtain s2 ws where
      s2: "bn_do_sub a b c s = Some s2" "wf_heap s2" "length ws = max (length xs) (length ys)"
          "bn_at c s2 = Some (trim ws, sc)"
      by blast
    have wne: "ws \<noteq> []"
      using s2(3) ne by auto
    from set_sign_wf [OF s2(2,4), of 0] obtain s' where
      s': "set_sign c 0 s2 = Some s'" "wf_heap s'" "bn_at c s' = Some (trim ws, 0)"
      by blast
    have "xs \<noteq> ys" using veq v1 by auto
    then show ?thesis
      using cmp v1 s2(1) s' trim_props(2,3) [OF wne] by simp
  next
    assume v1: "v = - 1"
    then have ne: "ys \<noteq> [] \<or> xs \<noteq> []" using vne by auto
    from bn_do_sub_core [OF wf_heap at_b at_a at_c len(2,1) ne g] obtain s2 ws where
      s2: "bn_do_sub b a c s = Some s2" "wf_heap s2" "length ws = max (length ys) (length xs)"
          "bn_at c s2 = Some (trim ws, sc)"
      by blast
    have wne: "ws \<noteq> []"
      using s2(3) ne by auto
    from set_sign_wf [OF s2(2,4), of 1] obtain s' where
      s': "set_sign c 1 s2 = Some s'" "wf_heap s'" "bn_at c s' = Some (trim ws, 1)"
      by blast
    have "xs \<noteq> ys" using veq v1 by auto
    then show ?thesis
      using cmp v1 s2(1) s' trim_props(2,3) [OF wne] by simp
  qed
qed

lemma bn_add_core:
  assumes wf_heap: "wf_heap s"
    and at_a: "bn_at a s = Some (xs, sa)" and at_b: "bn_at b s = Some (ys, sb)"
    and at_c: "bn_at c s = Some (zs, sc)"
    and len: "length xs \<le> max_limbs" "length ys \<le> max_limbs"
    and g: "grants 2 (host s)"
  shows "\<exists>s' rs sg. bn_add a b c s = Some s' \<and> wf_heap s' \<and> bn_at c s' = Some (rs, sg)
      \<and> rs \<noteq> [] \<and> (length rs = 1 \<or> last rs \<noteq> 0)
      \<and> (sa = sb \<longrightarrow> mag rs = mag xs + mag ys \<and> sg = sa)
      \<and> (sa \<noteq> sb \<and> xs = ys \<longrightarrow> rs = [0] \<and> sg = 0)"
proof -
  from at_a obtain A where A: "get_bn a s = Some A" "sign A = sa"
    by (rule bn_atD)
  from at_b obtain B where B: "get_bn b s = Some B" "sign B = sb"
    by (rule bn_atD)
  show ?thesis
  proof (cases "sa = sb")
    case True
    from bn_do_add_core [OF wf_heap at_a at_b at_c len g] obtain s1 ws where
      s1: "bn_do_add a b c s = Some s1" "wf_heap s1" "length ws = capacity xs ys"
          "mag ws = mag xs + mag ys"
          "bn_at c s1 = Some (if last ws = 0 \<and> 1 < length ws then butlast ws else ws, sc)"
          "\<forall>p. p \<noteq> c \<longrightarrow> bn_at p s1 = bn_at p s"
      by blast
    define rs where "rs = (if last ws = 0 \<and> 1 < length ws then butlast ws else ws)"
    note n = add_normalized [OF len s1(3,4), folded rs_def]
    have "\<exists>ts. bn_at a s1 = Some (ts, sa)"
    proof (cases "a = c")
      case True
      with at_a at_c have "sc = sa" by simp
      with s1(5) True show ?thesis by simp
    next
      case False
      with s1(6) at_a show ?thesis by simp
    qed
    then obtain ts where "bn_at a s1 = Some (ts, sa)" by blast
    then obtain A1 where A1: "get_bn a s1 = Some A1" "sign A1 = sa"
      by (rule bn_atD)
    from set_sign_wf [OF s1(2) s1(5) [folded rs_def], of sa] obtain s' where
      s': "set_sign c sa s1 = Some s'" "wf_heap s'" "bn_at c s' = Some (rs, sa)"
      by blast
    have "bn_add a b c s = Some s'"
      unfolding bn_add_def using A B True s1(1) A1 s' by simp
    with s'(2,3) n True show ?thesis by blast
  next
    case False
    then have ab: "a \<noteq> b"
      using at_a at_b by auto
    have "\<exists>s1 xs1 sa1 ys1 sb1 zs1 sc1.
        (if sign A \<noteq> 0 then bn_swap a b s else Some s) = Some s1 \<and> wf_heap s1 \<and> grants 2 (host s1)
        \<and> bn_at a s1 = Some (xs1, sa1) \<and> bn_at b s1 = Some (ys1, sb1) \<and> bn_at c s1 = Some (zs1, sc1)
        \<and> length xs1 \<le> max_limbs \<and> length ys1 \<le> max_limbs \<and> (xs = ys \<longrightarrow> xs1 = ys1)"
    proof (cases "sign A \<noteq> 0")
      case True
      from bn_swap_wf [OF wf_heap at_a at_b ab] obtain s1 where
        s1: "bn_swap a b s = Some s1" "wf_heap s1" "host s1 = host s"
            "bn_at a s1 = Some (ys, sb)" "bn_at b s1 = Some (xs, sa)"
            "\<forall>p. p \<noteq> a \<and> p \<noteq> b \<longrightarrow> bn_at p s1 = bn_at p s"
        by blast
      have "\<exists>zs1 sc1. bn_at c s1 = Some (zs1, sc1)"
        using s1(4,5,6) at_c by (cases "c = a"; cases "c = b") auto
      with True s1 g len show ?thesis by auto
    next
      case False
      with wf_heap g at_a at_b at_c len show ?thesis by auto
    qed
    then obtain s1 xs1 sa1 ys1 sb1 zs1 sc1 where
      s1: "(if sign A \<noteq> 0 then bn_swap a b s else Some s) = Some s1" "wf_heap s1" "grants 2 (host s1)"
          "bn_at a s1 = Some (xs1, sa1)" "bn_at b s1 = Some (ys1, sb1)" "bn_at c s1 = Some (zs1, sc1)"
          "length xs1 \<le> max_limbs" "length ys1 \<le> max_limbs" "xs = ys \<longrightarrow> xs1 = ys1"
      by blast
    from bn_add_opposite [OF s1(2,4,5,6,7,8,3)] obtain s' rs sg where
      t: "(do { cmp \<leftarrow> bn_cmp a b s1;
            if 0 < sint cmp then do {
              s2 \<leftarrow> bn_do_sub a b c s1;
              set_sign c 0 s2 }
            else if sint cmp < 0 then do {
              s2 \<leftarrow> bn_do_sub b a c s1;
              set_sign c 1 s2 }
            else do {
              (_, s2) \<leftarrow> bn_resize c 1 s1;
              C \<leftarrow> get_bn c s2;
              s3 \<leftarrow> store (number C) 0 0 s2;
              set_sign c 0 s3 } }) = Some s'"
         "wf_heap s'" "bn_at c s' = Some (rs, sg)" "rs \<noteq> []" "length rs = 1 \<or> last rs \<noteq> 0"
         "xs1 = ys1 \<longrightarrow> rs = [0] \<and> sg = 0"
      by blast
    have sne: "sign A \<noteq> sign B"
      using False A(2) B(2) by simp
    have "bn_add a b c s = Some s'"
      unfolding bn_add_def
      by (simp only: A(1) B(1) Option.bind.simps sne if_False s1(1) t(1))
    with t(2-6) s1(9) False show ?thesis by blast
  qed
qed

section \<open>The example kernel\<close>

lemma wf_three_bn:
  assumes "length xs < 2 ^ 32" and "length ys < 2 ^ 32" and "length zs < 2 ^ 32"
  shows "wf_heap (three_bn xs sa ys sb zs)"
  using assms unfolding wf_heap_def three_bn_def
  by (auto simp: unat_of_nat32 split: if_splits)

lemma bn_at_three_bn:
  assumes "length xs < 2 ^ 32" and "length ys < 2 ^ 32" and "length zs < 2 ^ 32"
  shows "bn_at (Some 1) (three_bn xs sa ys sb zs) = Some (xs, sa)"
    and "bn_at (Some 2) (three_bn xs sa ys sb zs) = Some (ys, sb)"
    and "bn_at (Some 3) (three_bn xs sa ys sb zs) = Some (zs, 0)"
  using assms by (simp_all add: bn_at_def get_bn_def get_limbs_def three_bn_def unat_of_nat32)

lemma grants_three_bn: "grants 2 (host (three_bn xs sa ys sb zs))"
  by (simp add: three_bn_def numeral_2_eq_2)

section \<open>The claims\<close>

text \<open>
  The theorems about \<^verbatim>\<open>bn_do_add\<close>, \<^verbatim>\<open>bn_do_sub\<close> and \<^verbatim>\<open>bn_add\<close> hold in every well-formed
  heap (\<open>wf_heap\<close>), for operands \<^verbatim>\<open>a\<close>, \<^verbatim>\<open>b\<close> and a destination \<^verbatim>\<open>c\<close> that are live bn (\<open>bn_at\<close>),
  whatever pointers among \<^verbatim>\<open>a\<close>, \<^verbatim>\<open>b\<close>, \<^verbatim>\<open>c\<close> are equal. They assume that the operands have at
  most \<open>max_limbs\<close> limbs, so that the \<^verbatim>\<open>int\<close> bit counts do not overflow, and that the allocator
  grants the two requests a call can make (\<open>grants 2\<close>); then the call returns (the result is
  \<open>Some\<close>). The operands need not be normalized.
\<close>

subsection \<open>Comparison\<close>

text \<open>
  C1. \<^verbatim>\<open>bn_cmp\<close> at two pairs of normalized operands, read the way \<^verbatim>\<open>bn_add\<close> reads it
  (\<open>verdict\<close>). With \<^verbatim>\<open>a = {7}\<close> (one limb) against \<^verbatim>\<open>b = {0, 1}\<close> (two limbs) it returns \<open>1\<close>:
  the operand with fewer limbs is reported GREATER, not LESS. With \<^verbatim>\<open>a = {3}\<close> against
  \<^verbatim>\<open>b = {5}\<close> it returns \<open>1\<close> as well: the operand whose first mismatching limb is smaller is
  reported GREATER, not LESS.
\<close>

theorem bn_cmp_smaller_is_greater:
  "bn_cmp (Some 1) (Some 2) (three_bn [7] 0 [0, 1] 0 [0]) = Some 1
   \<and> map_option verdict (bn_cmp (Some 1) (Some 2) (three_bn [7] 0 [0, 1] 0 [0])) = Some GREATER
   \<and> bn_cmp (Some 1) (Some 2) (three_bn [3] 0 [5] 0 [0]) = Some 1
   \<and> map_option verdict (bn_cmp (Some 1) (Some 2) (three_bn [3] 0 [5] 0 [0])) = Some GREATER"
  by code_simp

subsection \<open>Signed addition\<close>

text \<open>
  C2. \<^verbatim>\<open>bn_add\<close> at \<^verbatim>\<open>a = -5\<close> (sign 1, limbs \<^verbatim>\<open>{5}\<close>) and \<^verbatim>\<open>b = 3\<close> (sign 0, limbs \<^verbatim>\<open>{3}\<close>),
  with a separate destination: the destination ends as sign 0 with the single limb
  \<^verbatim>\<open>0xFFFFFFFE\<close>, not as sign 1 with the limb 2.
\<close>

theorem bn_add_minus5_plus3:
  "(do { s \<leftarrow> bn_add (Some 1) (Some 2) (Some 3) (three_bn [5] 1 [3] 0 [0]); bn_at (Some 3) s })
     = Some ([0xFFFFFFFE], 0)"
  by code_simp

text \<open>
  C3. \<^verbatim>\<open>bn_add\<close> at \<^verbatim>\<open>a = -5\<close> and the canonical zero, with a separate destination: the
  destination ends as sign 0 with the single limb \<^verbatim>\<open>0xFFFFFFFB\<close>, not as \<^verbatim>\<open>a\<close>.
\<close>

theorem bn_add_minus5_plus0:
  "(do { s \<leftarrow> bn_add (Some 1) (Some 2) (Some 3) (three_bn [5] 1 [0] 0 [0]); bn_at (Some 3) s })
     = Some ([0xFFFFFFFB], 0)"
  by code_simp

text \<open>
  C4. \<^verbatim>\<open>bn_add\<close> of a bn and its negation (the same limbs, a different sign flag) returns
  and leaves the canonical zero in the destination: \<^verbatim>\<open>size\<close> is 1, \<^verbatim>\<open>number[0]\<close> is 0 and
  \<^verbatim>\<open>sign\<close> is 0.
\<close>

theorem bn_add_negation:
  assumes "wf_heap s"
    and "bn_at a s = Some (xs, sa)" and "bn_at b s = Some (xs, sb)" and "sa \<noteq> sb"
    and "bn_at c s = Some (zs, sc)"
    and "length xs \<le> max_limbs" and "grants 2 (host s)"
  shows "\<exists>s' C. bn_add a b c s = Some s' \<and> bn_at c s' = Some ([0], 0)
           \<and> get_bn c s' = Some C \<and> size' C = 1 \<and> sign C = 0 \<and> load (number C) 0 s' = Some 0"
proof -
  from bn_add_core [OF assms(1,2,3,5,6,6,7)] assms(4) obtain s' where
    s': "bn_add a b c s = Some s'" "bn_at c s' = Some ([0], 0)"
    by blast
  from s'(2) obtain C where C: "get_bn c s' = Some C" "get_limbs (number C) s' = Some [0]"
      "length [0 :: u32] = unat (size' C)" "sign C = 0"
    by (rule bn_atD)
  have "size' C = 1"
    using size_of_length [OF C(3)] by simp
  moreover have "load (number C) 0 s' = Some 0"
    using C(2) by (simp add: load_def)
  ultimately show ?thesis
    using s' C(1,4) by blast
qed

theorem bn_add_negation_witness:
  "\<exists>s' C. bn_add (Some 1) (Some 2) (Some 1) (three_bn [5, 9] 1 [5, 9] 0 [0]) = Some s'
      \<and> bn_at (Some 1) s' = Some ([0], 0)
      \<and> get_bn (Some 1) s' = Some C \<and> size' C = 1 \<and> sign C = 0 \<and> load (number C) 0 s' = Some 0"
proof -
  let ?s = "three_bn [5, 9] 1 [5, 9] 0 [0]"
  have "wf_heap ?s"
    by (rule wf_three_bn) simp_all
  moreover have "bn_at (Some 1) ?s = Some ([5, 9], 1)" "bn_at (Some 2) ?s = Some ([5, 9], 0)"
    by (rule bn_at_three_bn; simp)+
  moreover have "(1 :: u32) \<noteq> 0" "length [5, 9 :: u32] \<le> max_limbs" "grants 2 (host ?s)"
    by (simp_all add: max_limbs_def grants_three_bn)
  ultimately show ?thesis
    using bn_add_negation [of ?s "Some 1" "[5, 9]" 1 "Some 2" 0 "Some 1" "[5, 9]" 1] by simp
qed

text \<open>
  C5. After \<^verbatim>\<open>bn_add\<close>, on every path (\<^verbatim>\<open>bn_do_add\<close>, \<^verbatim>\<open>bn_do_sub\<close> in either order, or the
  branch of equal magnitudes), the destination \<^verbatim>\<open>r\<close> satisfies \<^verbatim>\<open>r.size == 1\<close> or
  \<^verbatim>\<open>r.number[r.size - 1] != 0\<close>.
\<close>

theorem bn_add_normalized:
  assumes "wf_heap s"
    and "bn_at a s = Some (xs, sa)" and "bn_at b s = Some (ys, sb)" and "bn_at c s = Some (zs, sc)"
    and "length xs \<le> max_limbs" and "length ys \<le> max_limbs" and "grants 2 (host s)"
  shows "\<exists>s' C rs. bn_add a b c s = Some s' \<and> get_bn c s' = Some C
           \<and> get_limbs (number C) s' = Some rs \<and> length rs = unat (size' C)
           \<and> (size' C = 1 \<or> rs ! (unat (size' C) - 1) \<noteq> 0)"
proof -
  from bn_add_core [OF assms] obtain s' rs sg where
    s': "bn_add a b c s = Some s'" "bn_at c s' = Some (rs, sg)" "rs \<noteq> []"
        "length rs = 1 \<or> last rs \<noteq> 0"
    by blast
  from s'(2) obtain C where C: "get_bn c s' = Some C" "get_limbs (number C) s' = Some rs"
      "length rs = unat (size' C)"
    by (rule bn_atD)
  have "size' C = 1 \<or> rs ! (unat (size' C) - 1) \<noteq> 0"
  proof (cases "length rs = 1")
    case True
    then show ?thesis
      using size_of_length [OF C(3)] by simp
  next
    case False
    with s'(4) have "last rs \<noteq> 0" by simp
    then show ?thesis
      using s'(3) C(3) by (simp add: last_conv_nth)
  qed
  with s'(1) C show ?thesis by blast
qed

theorem bn_add_normalized_witness:
  "\<exists>s' C rs. bn_add (Some 1) (Some 2) (Some 3) (three_bn [0, 7] 1 [9] 0 [1, 2, 3]) = Some s'
      \<and> get_bn (Some 3) s' = Some C
      \<and> get_limbs (number C) s' = Some rs \<and> length rs = unat (size' C)
      \<and> (size' C = 1 \<or> rs ! (unat (size' C) - 1) \<noteq> 0)"
proof -
  let ?s = "three_bn [0, 7] 1 [9] 0 [1, 2, 3]"
  have "wf_heap ?s"
    by (rule wf_three_bn) simp_all
  moreover have "bn_at (Some 1) ?s = Some ([0, 7], 1)" "bn_at (Some 2) ?s = Some ([9], 0)"
      "bn_at (Some 3) ?s = Some ([1, 2, 3], 0)"
    by (rule bn_at_three_bn; simp)+
  moreover have "length [0, 7 :: u32] \<le> max_limbs" "length [9 :: u32] \<le> max_limbs" "grants 2 (host ?s)"
    by (simp_all add: max_limbs_def grants_three_bn)
  ultimately show ?thesis
    by (rule bn_add_normalized)
qed

subsection \<open>Addition and subtraction of magnitudes\<close>



text \<open>
  C7. \<^verbatim>\<open>bn_do_sub\<close> with \<^verbatim>\<open>|a| >= |b|\<close>. The run of \<^verbatim>\<open>bn_do_sub\<close> is the resize of the destination to
  \<^verbatim>\<open>max(a.size, b.size)\<close> limbs, giving the state \<^verbatim>\<open>s1\<close>, continued from \<^verbatim>\<open>s1\<close> by the borrow loop
  over the limbs of the destination, the count of leading zeros and the trimming resize: the
  final state \<^verbatim>\<open>s'\<close> is the one this continuation returns from \<^verbatim>\<open>s1\<close>. The loop leaves
  \<^verbatim>\<open>max(a.size, b.size)\<close> limbs \<^verbatim>\<open>ws\<close> of value \<^verbatim>\<open>|a| - |b|\<close>, and the destination ends as \<^verbatim>\<open>ws\<close>
  without its leading all-zero limbs: its magnitude is \<^verbatim>\<open>|a| - |b|\<close>, it has at least one limb, and
  its top limb is nonzero unless it has exactly one limb. \<^verbatim>\<open>krealloc\<close> has handed out one block
  if the destination did not have \<^verbatim>\<open>max(a.size, b.size)\<close> limbs at the start, and one more if
  limbs were trimmed at the end. Subtracting the limbs \<^verbatim>\<open>{1, 0}\<close> from \<^verbatim>\<open>{0, 1}\<close> gives the single
  limb \<^verbatim>\<open>0xFFFFFFFF\<close>.
\<close>

theorem bn_do_sub_magnitude:
  assumes "wf_heap s"
    and "bn_at a s = Some (xs, sa)" and "bn_at b s = Some (ys, sb)" and "bn_at c s = Some (zs, sc)"
    and "length xs \<le> max_limbs" and "length ys \<le> max_limbs" and "xs \<noteq> [] \<or> ys \<noteq> []"
    and "grants 2 (host s)" and "mag ys \<le> mag xs"
  shows "(\<exists>s1 s' ws rs.
          bn_resize c (of_nat (max (length xs) (length ys))) s = Some (0, s1)
          \<and> bn_at c s1 = Some (take (max (length xs) (length ys)) zs
                                 @ replicate (max (length xs) (length ys) - length zs) 0, sc)
          \<and> bn_do_sub a b c s = do {
               A \<leftarrow> get_bn a s1;
               B \<leftarrow> get_bn b s1;
               C \<leftarrow> get_bn c s1;
               s2 \<leftarrow> bn_do_sub_loop A B C 0 0 s1;
               z \<leftarrow> bn_clz c s2;
               let d = of_int (sint z sdiv 32);
               C2 \<leftarrow> get_bn c s2;
               let d = (if d = size' C2 then d - 1 else d);
               (_, s3) \<leftarrow> bn_resize c (ucast (size' C2 - d)) s2;
               Some s3 }
          \<and> bn_do_sub a b c s = Some s'
          \<and> length ws = max (length xs) (length ys) \<and> mag ws = mag xs - mag ys
          \<and> rs = trim ws
          \<and> bn_at c s' = Some (rs, sc) \<and> mag rs = mag xs - mag ys
          \<and> rs \<noteq> [] \<and> (length rs = 1 \<or> last rs \<noteq> 0)
          \<and> brk s' = brk s + (if length zs = max (length xs) (length ys) then 0 else 1)
                            + (if length rs = max (length xs) (length ys) then 0 else 1))
     \<and> (do { s' \<leftarrow> bn_do_sub (Some 1) (Some 2) (Some 3) (three_bn [0, 1] 0 [1, 0] 0 [0]);
              bn_at (Some 3) s' }) = Some ([0xFFFFFFFF], 0)"
proof -
  define N where "N = max (length xs) (length ys)"
  from bn_do_sub_core [OF assms(1-8), folded N_def] obtain s1 s' ws where
    r: "bn_resize c (of_nat N) s = Some (0, s1)"
       "bn_at c s1 = Some (take N zs @ replicate (N - length zs) 0, sc)"
       "bn_do_sub a b c s = Some s'" "length ws = N"
       "int (mag ws) = (int (mag xs) - int (mag ys)) mod 2 ^ (32 * N)"
       "bn_at c s' = Some (trim ws, sc)"
       "brk s' = brk s + (if length zs = N then 0 else 1) + (if length (trim ws) = N then 0 else 1)"
    by blast
  have "0 < N"
    using assms(7) unfolding N_def by (cases xs; cases ys) simp_all
  then have wne: "ws \<noteq> []"
    using r(4) by auto
  have "mag xs < 2 ^ (32 * length xs)"
    by (rule mag_lt)
  also have "(2 :: nat) ^ (32 * length xs) \<le> 2 ^ (32 * N)"
    by (intro power_increasing) (simp_all add: N_def)
  finally have "mag xs < 2 ^ (32 * N)" .
  then have "int (mag xs) < 2 ^ (32 * N)"
    by simp
  then have "int (mag xs) - int (mag ys) < 2 ^ (32 * N)"
    by linarith
  moreover have "0 \<le> int (mag xs) - int (mag ys)"
    using assms(9) by simp
  ultimately have "(int (mag xs) - int (mag ys)) mod 2 ^ (32 * N) = int (mag xs) - int (mag ys)"
    by (intro mod_pos_pos_trivial)
  then have "int (mag ws) = int (mag xs) - int (mag ys)"
    using r(5) by simp
  then have mw: "mag ws = mag xs - mag ys"
    using assms(9) by linarith
  then have m: "mag (trim ws) = mag xs - mag ys"
    using trim_props(1) [OF wne] by simp
  \<comment> \<open>the size the code computes for the first resize\<close>
  have l32: "length xs < 2 ^ 32" "length ys < 2 ^ 32" "N < 2 ^ 31"
    using assms(5,6) by (simp_all add: max_limbs_def N_def)
  from assms(2) obtain pa A0 qa where a: "get_bn a s = Some A0" "length xs = unat (size' A0)"
    by (rule bn_atD)
  from assms(3) obtain pb B0 qb where b: "get_bn b s = Some B0" "length ys = unat (size' B0)"
    by (rule bn_atD)
  have szA: "size' A0 = of_nat (length xs)" and szB: "size' B0 = of_nat (length ys)"
    using size_of_length [OF a(2)] size_of_length [OF b(2)] by simp_all
  have d: "(if size' B0 < size' A0 then size' A0 else size' B0) = of_nat N"
    unfolding szA szB using l32(1,2) by (simp add: of_nat_less32 N_def max_def)
  have sc: "(scast (of_nat N :: i32) :: u64) = of_nat N"
    using l32(3) by (rule scast_of_nat32)
  have run: "bn_do_sub a b c s = do {
               A \<leftarrow> get_bn a s1;
               B \<leftarrow> get_bn b s1;
               C \<leftarrow> get_bn c s1;
               s2 \<leftarrow> bn_do_sub_loop A B C 0 0 s1;
               z \<leftarrow> bn_clz c s2;
               let d = of_int (sint z sdiv 32);
               C2 \<leftarrow> get_bn c s2;
               let d = (if d = size' C2 then d - 1 else d);
               (_, s3) \<leftarrow> bn_resize c (ucast (size' C2 - d)) s2;
               Some s3 }"
    unfolding bn_do_sub_def using a(1) b(1) d sc r(1) by (simp add: Let_def)
  have gen: "\<exists>s1 s' ws rs.
          bn_resize c (of_nat N) s = Some (0, s1)
          \<and> bn_at c s1 = Some (take N zs @ replicate (N - length zs) 0, sc)
          \<and> bn_do_sub a b c s = do {
               A \<leftarrow> get_bn a s1;
               B \<leftarrow> get_bn b s1;
               C \<leftarrow> get_bn c s1;
               s2 \<leftarrow> bn_do_sub_loop A B C 0 0 s1;
               z \<leftarrow> bn_clz c s2;
               let d = of_int (sint z sdiv 32);
               C2 \<leftarrow> get_bn c s2;
               let d = (if d = size' C2 then d - 1 else d);
               (_, s3) \<leftarrow> bn_resize c (ucast (size' C2 - d)) s2;
               Some s3 }
          \<and> bn_do_sub a b c s = Some s'
          \<and> length ws = N \<and> mag ws = mag xs - mag ys
          \<and> rs = trim ws
          \<and> bn_at c s' = Some (rs, sc) \<and> mag rs = mag xs - mag ys
          \<and> rs \<noteq> [] \<and> (length rs = 1 \<or> last rs \<noteq> 0)
          \<and> brk s' = brk s + (if length zs = N then 0 else 1) + (if length rs = N then 0 else 1)"
    using r(1,2) run r(3,4) mw r(6) m trim_props(2,3) [OF wne] r(7)
    by (intro exI [of _ s1] exI [of _ s'] exI [of _ ws] exI [of _ "trim ws"] conjI refl)
  have ex: "(do { s' \<leftarrow> bn_do_sub (Some 1) (Some 2) (Some 3) (three_bn [0, 1] 0 [1, 0] 0 [0]);
              bn_at (Some 3) s' }) = Some ([0xFFFFFFFF], 0)"
    by code_simp
  from gen [unfolded N_def] ex show ?thesis
    by (intro conjI)
qed

theorem bn_do_sub_magnitude_witness:
  "(\<exists>s1 s' ws rs.
      bn_resize (Some 2) (of_nat (max (length [0, 0, 1 :: u32]) (length [5 :: u32])))
          (three_bn [0, 0, 1] 0 [5] 0 [0]) = Some (0, s1)
      \<and> bn_at (Some 2) s1 = Some (take (max (length [0, 0, 1 :: u32]) (length [5 :: u32])) [5]
             @ replicate (max (length [0, 0, 1 :: u32]) (length [5 :: u32]) - length [5 :: u32]) 0, 0)
      \<and> bn_do_sub (Some 1) (Some 2) (Some 2) (three_bn [0, 0, 1] 0 [5] 0 [0]) = do {
           A \<leftarrow> get_bn (Some 1) s1;
           B \<leftarrow> get_bn (Some 2) s1;
           C \<leftarrow> get_bn (Some 2) s1;
           s2 \<leftarrow> bn_do_sub_loop A B C 0 0 s1;
           z \<leftarrow> bn_clz (Some 2) s2;
           let d = of_int (sint z sdiv 32);
           C2 \<leftarrow> get_bn (Some 2) s2;
           let d = (if d = size' C2 then d - 1 else d);
           (_, s3) \<leftarrow> bn_resize (Some 2) (ucast (size' C2 - d)) s2;
           Some s3 }
      \<and> bn_do_sub (Some 1) (Some 2) (Some 2) (three_bn [0, 0, 1] 0 [5] 0 [0]) = Some s'
      \<and> length ws = max (length [0, 0, 1 :: u32]) (length [5 :: u32])
      \<and> mag ws = mag [0, 0, 1] - mag [5]
      \<and> rs = trim ws
      \<and> bn_at (Some 2) s' = Some (rs, 0) \<and> mag rs = mag [0, 0, 1] - mag [5]
      \<and> rs \<noteq> [] \<and> (length rs = 1 \<or> last rs \<noteq> 0)
      \<and> brk s' = brk (three_bn [0, 0, 1] 0 [5] 0 [0])
           + (if length [5 :: u32] = max (length [0, 0, 1 :: u32]) (length [5 :: u32]) then 0 else 1)
           + (if length rs = max (length [0, 0, 1 :: u32]) (length [5 :: u32]) then 0 else 1))
   \<and> (do { s' \<leftarrow> bn_do_sub (Some 1) (Some 2) (Some 3) (three_bn [0, 1] 0 [1, 0] 0 [0]);
            bn_at (Some 3) s' }) = Some ([0xFFFFFFFF], 0)"
proof -
  let ?s = "three_bn [0, 0, 1] 0 [5] 0 [0]"
  have "wf_heap ?s"
    by (rule wf_three_bn) simp_all
  moreover have "bn_at (Some 1) ?s = Some ([0, 0, 1], 0)" "bn_at (Some 2) ?s = Some ([5], 0)"
      "bn_at (Some 2) ?s = Some ([5], 0)"
    by (rule bn_at_three_bn; simp)+
  moreover have "length [0, 0, 1 :: u32] \<le> max_limbs" "length [5 :: u32] \<le> max_limbs"
      "[0, 0, 1 :: u32] \<noteq> [] \<or> [5 :: u32] \<noteq> []" "grants 2 (host ?s)" "mag [5] \<le> mag [0, 0, 1]"
    by (simp_all add: max_limbs_def grants_three_bn)
  ultimately show ?thesis
    by (rule bn_do_sub_magnitude)
qed

subsection \<open>The zero check\<close>

text \<open>
  C8. \<^verbatim>\<open>bn_is_zero(n)\<close> is \<^verbatim>\<open>n->size == 0\<close>. After \<^verbatim>\<open>bn_add\<close> it is false of the destination,
  also when the operands cancel and the destination is the canonical zero.
\<close>

theorem bn_is_zero_after_add:
  assumes "wf_heap s"
    and "bn_at a s = Some (xs, sa)" and "bn_at b s = Some (ys, sb)" and "bn_at c s = Some (zs, sc)"
    and "length xs \<le> max_limbs" and "length ys \<le> max_limbs" and "grants 2 (host s)"
  shows "(\<forall>B. get_bn n t = Some B \<longrightarrow> bn_is_zero n t = Some (size' B = 0))
       \<and> (\<exists>s'. bn_add a b c s = Some s' \<and> bn_is_zero c s' = Some False
              \<and> (sa \<noteq> sb \<and> xs = ys \<longrightarrow> bn_at c s' = Some ([0], 0)))"
proof
  show "\<forall>B. get_bn n t = Some B \<longrightarrow> bn_is_zero n t = Some (size' B = 0)"
    by (simp add: bn_is_zero_def)
  from bn_add_core [OF assms] obtain s' rs sg where
    s': "bn_add a b c s = Some s'" "bn_at c s' = Some (rs, sg)" "rs \<noteq> []"
        "sa \<noteq> sb \<and> xs = ys \<longrightarrow> rs = [0] \<and> sg = 0"
    by blast
  from s'(2) obtain C where C: "get_bn c s' = Some C" "length rs = unat (size' C)"
    by (rule bn_atD)
  have "size' C \<noteq> 0"
    using C(2) s'(3) by auto
  then have "bn_is_zero c s' = Some False"
    using C(1) by (simp add: bn_is_zero_def)
  with s' show "\<exists>s'. bn_add a b c s = Some s' \<and> bn_is_zero c s' = Some False
              \<and> (sa \<noteq> sb \<and> xs = ys \<longrightarrow> bn_at c s' = Some ([0], 0))"
    by blast
qed

theorem bn_is_zero_after_add_witness:
  "bn_is_zero (Some 3) (three_bn [5] 0 [5] 1 [0, 0]) = Some False
   \<and> (\<exists>s'. bn_add (Some 1) (Some 2) (Some 3) (three_bn [5] 0 [5] 1 [0, 0]) = Some s'
          \<and> bn_is_zero (Some 3) s' = Some False
          \<and> bn_at (Some 3) s' = Some ([0], 0))"
proof -
  let ?s = "three_bn [5] 0 [5] 1 [0, 0]"
  have "wf_heap ?s"
    by (rule wf_three_bn) simp_all
  moreover have "bn_at (Some 1) ?s = Some ([5], 0)" "bn_at (Some 2) ?s = Some ([5], 1)"
      "bn_at (Some 3) ?s = Some ([0, 0], 0)"
    by (rule bn_at_three_bn; simp)+
  moreover have "length [5 :: u32] \<le> max_limbs" "length [5 :: u32] \<le> max_limbs" "grants 2 (host ?s)"
    by (simp_all add: max_limbs_def grants_three_bn)
  ultimately have t: "(\<forall>B. get_bn (Some 3) ?s = Some B \<longrightarrow> bn_is_zero (Some 3) ?s = Some (size' B = 0))
       \<and> (\<exists>s'. bn_add (Some 1) (Some 2) (Some 3) ?s = Some s' \<and> bn_is_zero (Some 3) s' = Some False
              \<and> ((0 :: u32) \<noteq> 1 \<and> [5 :: u32] = [5] \<longrightarrow> bn_at (Some 3) s' = Some ([0], 0)))"
    by (rule bn_is_zero_after_add)
  have "get_bn (Some 3) ?s = Some \<lparr>number = Some 13, size' = 2, sign = 0\<rparr>"
    by (simp add: get_bn_def three_bn_def)
  with t have "bn_is_zero (Some 3) ?s = Some ((2 :: u32) = 0)"
    by simp
  with t show ?thesis
    by simp
qed

subsection \<open>Release and resize\<close>

text \<open>
  C9. \<^verbatim>\<open>bn_free\<close> returns \<open>-1\<close> exactly when the pointer it is given is NULL. On a live bn
  whose \<^verbatim>\<open>number\<close> points to a live block it passes the block and then the struct to
  \<^verbatim>\<open>kfree\<close> (the log \<open>released\<close> grows by the block, then the struct), both leave the heap,
  and it returns \<open>0\<close>.
\<close>

theorem bn_free_reports:
  "((\<exists>s'. bn_free src s = Some (- 1, s')) \<longleftrightarrow> src = NULL) \<and>
   (\<forall>p B q xs. src = Some p \<and> heap s p = Some (Struct B) \<and> number B = Some q
        \<and> heap s q = Some (Limbs xs) \<longrightarrow>
      bn_free src s = Some (0, s\<lparr>heap := (heap s)(q := None, p := None),
                                 released := released s @ [q, p]\<rparr>))"
  by (auto simp: bn_free_def get_bn_def kfree_def split: option.splits cell.splits bind_splits)

theorem bn_free_reports_witness:
  "bn_free (Some 1) (three_bn [5] 0 [3] 0 [0]) =
     Some (0, (three_bn [5] 0 [3] 0 [0])\<lparr>heap := (heap (three_bn [5] 0 [3] 0 [0]))(11 := None, 1 := None),
                                          released := [11, 1]\<rparr>)
   \<and> \<not> (\<exists>s'. bn_free (Some 1) (three_bn [5] 0 [3] 0 [0]) = Some (- 1, s'))
   \<and> (\<exists>s'. bn_free NULL (three_bn [5] 0 [3] 0 [0]) = Some (- 1, s'))"
  using bn_free_reports [of "Some 1" "three_bn [5] 0 [3] 0 [0]"]
    bn_free_reports [of NULL "three_bn [5] 0 [3] 0 [0]"]
  by (simp add: three_bn_def)

text \<open>
  C10. \<^verbatim>\<open>bn_resize\<close> on a live bn. With \<^verbatim>\<open>size == 0\<close> (and a bn of nonzero size) it is
  \<^verbatim>\<open>bn_free\<close>: the block and the struct are released, \<open>0\<close> is returned and no bn is left at
  the pointer. With \<^verbatim>\<open>size == src->size\<close> it returns \<open>0\<close> and changes nothing. A grow whose
  \<^verbatim>\<open>krealloc\<close> is granted, to a size that fits \<^verbatim>\<open>unsigned int\<close>, returns \<open>0\<close>, keeps the old limbs
  and the sign, and leaves zeros at the indices from the old size up to the new one,
  whatever the fresh memory held.
\<close>

theorem bn_resize_cases:
  assumes "heap s p = Some (Struct B)" and "number B = Some q"
    and "heap s q = Some (Limbs xs)" and "length xs = unat (size' B)"
  shows "(size' B \<noteq> 0 \<longrightarrow>
            bn_resize (Some p) 0 s = bn_free (Some p) s
            \<and> bn_free (Some p) s = Some (0, s\<lparr>heap := (heap s)(q := None, p := None),
                                              released := released s @ [q, p]\<rparr>)
            \<and> get_bn (Some p) (s\<lparr>heap := (heap s)(q := None, p := None),
                                  released := released s @ [q, p]\<rparr>) = None)
       \<and> (sz = ucast (size' B) \<longrightarrow> bn_resize (Some p) sz s = Some (0, s))
       \<and> (ucast (size' B) < sz \<and> sz \<le> 0xFFFFFFFF \<and> host s = Granted junk # rest
             \<and> heap s (brk s) = None \<longrightarrow>
           (\<exists>s' B'. bn_resize (Some p) sz s = Some (0, s') \<and> get_bn (Some p) s' = Some B'
              \<and> size' B' = ucast sz \<and> sign B' = sign B
              \<and> get_limbs (number B') s' = Some (xs @ replicate (unat sz - length xs) 0)))"
proof (intro conjI impI)
  have pq: "p \<noteq> q"
    using assms(1,3) by auto
  {
    assume nz: "size' B \<noteq> 0"
    have "unat (ucast (size' B) :: u64) \<noteq> 0"
      using nz by (simp add: unat_ucast_up unat_0_iff)
    then have "(0 :: u64) \<noteq> ucast (size' B)"
      by auto
    then show "bn_resize (Some p) 0 s = bn_free (Some p) s"
      using assms(1) by (simp add: bn_resize_def get_bn_def)
  }
  show "bn_free (Some p) s = Some (0, s\<lparr>heap := (heap s)(q := None, p := None),
                                         released := released s @ [q, p]\<rparr>)"
    using assms(1,2,3) pq by (simp add: bn_free_def get_bn_def kfree_def)
  show "get_bn (Some p) (s\<lparr>heap := (heap s)(q := None, p := None),
                                  released := released s @ [q, p]\<rparr>) = None"
    by (simp add: get_bn_def)
  {
    assume "sz = ucast (size' B)"
    then show "bn_resize (Some p) sz s = Some (0, s)"
      using assms(1) by (simp add: bn_resize_def get_bn_def)
  }
  {
    assume a: "ucast (size' B) < sz \<and> sz \<le> 0xFFFFFFFF \<and> host s = Granted junk # rest
             \<and> heap s (brk s) = None"
    define n where "n = unat sz"
    have sz: "sz = of_nat n"
      by (simp add: n_def)
    have "unat sz \<le> unat (0xFFFFFFFF :: u64)"
      using a by (simp add: word_le_nat_alt)
    then have n32: "n < 2 ^ 32"
      by (simp add: n_def)
    have "unat (ucast (size' B) :: u64) < unat sz"
      using a by (simp add: word_less_nat_alt)
    then have gt: "length xs < n"
      using assms(4) by (simp add: unat_ucast_up n_def)
    have brk: "brk s \<noteq> p"
      using a assms(1) by auto
    have n: "n \<noteq> length xs" "0 < n"
      using gt by simp_all
    note r = bn_resize_granted [OF assms a [THEN conjunct2, THEN conjunct2, THEN conjunct1] brk n n32]
    define B' where "B' = B\<lparr>number := Some (brk s), size' := of_nat n\<rparr>"
    define s' where "s' = s\<lparr>heap := (heap s)(q := None, brk s \<mapsto> Limbs (take n xs @ replicate (n - length xs) 0),
                                  p \<mapsto> Struct B'), brk := Suc (brk s), host := rest\<rparr>"
    have "bn_resize (Some p) sz s = Some (0, s')"
      using r by (simp add: sz s'_def B'_def)
    moreover have "get_bn (Some p) s' = Some B'"
      by (simp add: get_bn_def s'_def)
    moreover have "size' B' = ucast sz"
      by (simp add: B'_def sz ucast_down_of_nat)
    moreover have "sign B' = sign B"
      by (simp add: B'_def)
    moreover have "get_limbs (number B') s' = Some (xs @ replicate (unat sz - length xs) 0)"
      using brk gt by (simp add: get_limbs_def s'_def B'_def n_def)
    ultimately show "\<exists>s' B'. bn_resize (Some p) sz s = Some (0, s') \<and> get_bn (Some p) s' = Some B'
              \<and> size' B' = ucast sz \<and> sign B' = sign B
              \<and> get_limbs (number B') s' = Some (xs @ replicate (unat sz - length xs) 0)"
      by blast
  }
qed

theorem bn_resize_cases_witness:
  "bn_resize (Some 1) 0 (three_bn [5] 1 [3] 0 [0]) = bn_free (Some 1) (three_bn [5] 1 [3] 0 [0])
   \<and> bn_free (Some 1) (three_bn [5] 1 [3] 0 [0])
       = Some (0, (three_bn [5] 1 [3] 0 [0])\<lparr>heap := (heap (three_bn [5] 1 [3] 0 [0]))(11 := None, 1 := None),
                                           released := [11, 1]\<rparr>)
   \<and> bn_resize (Some 1) 1 (three_bn [5] 1 [3] 0 [0]) = Some (0, three_bn [5] 1 [3] 0 [0])
   \<and> (\<exists>s' B'. bn_resize (Some 1) 3 (three_bn [5] 1 [3] 0 [0]) = Some (0, s')
          \<and> get_bn (Some 1) s' = Some B' \<and> size' B' = 3 \<and> sign B' = 1
          \<and> get_limbs (number B') s' = Some [5, 0, 0])"
proof -
  let ?s = "three_bn [5] 1 [3] 0 [0]"
  let ?B = "\<lparr>number = Some 11, size' = 1, sign = 1\<rparr>"
  have h: "heap ?s 1 = Some (Struct ?B)" "number ?B = Some 11" "heap ?s 11 = Some (Limbs [5])"
      "length [5 :: u32] = unat (size' ?B)"
    by (simp_all add: three_bn_def)
  have g: "host ?s = Granted (\<lambda>i. 0xDEADBEEF) # [Granted (\<lambda>i. 0xDEADBEEF)]" "heap ?s (brk ?s) = None"
      "released ?s = []"
    by (simp_all add: three_bn_def)
  note t0 = bn_resize_cases [OF h, of 0 "\<lambda>i. 0xDEADBEEF" "[Granted (\<lambda>i. 0xDEADBEEF)]"]
  note t1 = bn_resize_cases [OF h, of 1 "\<lambda>i. 0xDEADBEEF" "[Granted (\<lambda>i. 0xDEADBEEF)]"]
  note t3 = bn_resize_cases [OF h, of 3 "\<lambda>i. 0xDEADBEEF" "[Granted (\<lambda>i. 0xDEADBEEF)]"]
  have a: "bn_resize (Some 1) 0 ?s = bn_free (Some 1) ?s"
    using t0 by simp
  have b: "bn_free (Some 1) ?s = Some (0, ?s\<lparr>heap := (heap ?s)(11 := None, 1 := None), released := [11, 1]\<rparr>)"
    using t0 g(3) by simp
  have c: "bn_resize (Some 1) 1 ?s = Some (0, ?s)"
    using t1 by simp
  have d: "\<exists>s' B'. bn_resize (Some 1) 3 ?s = Some (0, s')
          \<and> get_bn (Some 1) s' = Some B' \<and> size' B' = 3 \<and> sign B' = 1
          \<and> get_limbs (number B') s' = Some [5, 0, 0]"
  proof -
    have r: "replicate 2 (0 :: u32) = [0, 0]"
      by (simp add: numeral_2_eq_2)
    show ?thesis
      using t3 g(1,2) by (simp add: r)
  qed
  from a b c d show ?thesis
    by (intro conjI)
qed

end
